theory Spec2Isabelle
  imports Main
begin

section \<open>JavaScript values\<close>

text \<open>
  The services pass plain JavaScript values around: query parameters, the records that
  \<^verbatim>\<open>executeQuery\<close> builds, and the node/link objects of the visualisation model.
  A value is a JSON-like tree: no array and no object is shared between two places of a
  value. Numbers are the integers and \<^verbatim>\<open>NaN\<close>; the integers of magnitude below \<open>2^53\<close>
  are the ones a double holds exactly and \<^verbatim>\<open>ToString\<close> prints as plain decimal digits,
  and what the program computes from a larger number is not followed (\<open>parseInt\<close> below
  gives \<open>None\<close> there). A string is the list of its UTF-16 code units, each below 256,
  so that \<^verbatim>\<open>CHR 0xA0\<close> is the no-break space. An object is the list of its own enumerable
  properties in insertion order (integer-like keys are not moved to the front, as
  JavaScript does when it lists them); where a key occurs twice in such a list the first
  binding is the property.
\<close>

datatype jsval =
    JUndefined
  | JNull
  | JBool bool
  | JNum int
  | JNaN
  | JStr string
  | JArr "jsval list"
  | JObj "(string \<times> jsval) list"

text \<open>ToBoolean: what \<^verbatim>\<open>!x\<close>, \<^verbatim>\<open>x || y\<close>, \<^verbatim>\<open>x && y\<close> and \<^verbatim>\<open>x ? a : b\<close> test.\<close>

fun truthy :: "jsval \<Rightarrow> bool" where
  "truthy JUndefined = False"
| "truthy JNull = False"
| "truthy (JBool b) = b"
| "truthy (JNum n) = (n \<noteq> 0)"
| "truthy JNaN = False"
| "truthy (JStr s) = (s \<noteq> [])"
| "truthy (JArr xs) = True"
| "truthy (JObj kvs) = True"

definition js_or :: "jsval \<Rightarrow> jsval \<Rightarrow> jsval" where
  "js_or a b = (if truthy a then a else b)"

fun is_array :: "jsval \<Rightarrow> bool" where
  "is_array (JArr xs) = True"
| "is_array v = False"

subsection \<open>Decimal numerals\<close>

definition digit_char :: "nat \<Rightarrow> char" where
  "digit_char d = char_of (48 + d)"

fun string_of_nat :: "nat \<Rightarrow> string" where
  "string_of_nat n =
     (if n < 10 then [digit_char n]
      else string_of_nat (n div 10) @ [digit_char (n mod 10)])"

declare string_of_nat.simps [simp del]

definition string_of_int :: "int \<Rightarrow> string" where
  "string_of_int i = (if i < 0 then CHR ''-'' # string_of_nat (nat (- i)) else string_of_nat (nat i))"

subsection \<open>Own properties, property reads, object spread\<close>

fun indexed :: "nat \<Rightarrow> 'a list \<Rightarrow> (string \<times> 'a) list" where
  "indexed i [] = []"
| "indexed i (x # xs) = (string_of_nat i, x) # indexed (Suc i) xs"

text \<open>
  The own enumerable properties that \<^verbatim>\<open>{...v}\<close> copies: the properties of an object, the
  indexed elements of an array, the indexed characters of a string, nothing for any
  other value.
\<close>

fun own_props :: "jsval \<Rightarrow> (string \<times> jsval) list" where
  "own_props (JObj kvs) = map (\<lambda>k. (k, the (map_of kvs k))) (remdups (map fst kvs))"
| "own_props (JArr xs) = indexed 0 xs"
| "own_props (JStr s) = indexed 0 (map (\<lambda>c. JStr [c]) s)"
| "own_props v = []"

text \<open>
  \<^verbatim>\<open>v.k\<close> for the property names the services read (none of them is \<^verbatim>\<open>length\<close> or
  an inherited method): the own property, or \<^verbatim>\<open>undefined\<close>.
\<close>

definition js_get :: "jsval \<Rightarrow> string \<Rightarrow> jsval" where
  "js_get v k = (case map_of (own_props v) k of Some x \<Rightarrow> x | None \<Rightarrow> JUndefined)"

text \<open>
  Writing \<^verbatim>\<open>k: v\<close> in an object literal: an existing key keeps its place and takes the
  new value, a new key goes to the end.
\<close>

fun obj_set :: "(string \<times> jsval) list \<Rightarrow> string \<Rightarrow> jsval \<Rightarrow> (string \<times> jsval) list" where
  "obj_set [] k v = [(k, v)]"
| "obj_set ((k', v') # kvs) k v = (if k' = k then (k, v) # kvs else (k', v') # obj_set kvs k v)"

fun spread :: "(string \<times> jsval) list \<Rightarrow> (string \<times> jsval) list \<Rightarrow> (string \<times> jsval) list" where
  "spread acc [] = acc"
| "spread acc ((k, v) # kvs) = spread (obj_set acc k v) kvs"

subsection \<open>parseInt\<close>

text \<open>
  \<^verbatim>\<open>parseInt(v)\<close> with no radix: \<^verbatim>\<open>ToString(v)\<close>, leading white space dropped, an
  optional sign, an optional \<^verbatim>\<open>0x\<close> prefix (radix 16, else radix 10), then the longest
  run of digits; \<^verbatim>\<open>NaN\<close> when that run is empty. The run of digits denotes an integer,
  which \<^verbatim>\<open>parseInt\<close> returns as a double: below \<open>2^53\<close> that is the integer itself, and
  from there on the double is a rounded value that is not followed (\<open>None\<close>).
\<close>

text \<open>
  The white space and line terminators among the code units below 256: tab, line feed,
  vertical tab, form feed, carriage return, space and no-break space.
\<close>

definition is_space :: "char \<Rightarrow> bool" where
  "is_space c = (let n = (of_char c :: nat) in (9 \<le> n \<and> n \<le> 13) \<or> n = 32 \<or> n = 160)"

definition safe_int :: "int \<Rightarrow> bool" where
  "safe_int n = (\<bar>n\<bar> < 2 ^ 53)"

definition digit_val :: "nat \<Rightarrow> char \<Rightarrow> nat option" where
  "digit_val radix c =
     (let n = (of_char c :: nat);
          d = (if 48 \<le> n \<and> n \<le> 57 then Some (n - 48)
               else if 97 \<le> n \<and> n \<le> 122 then Some (n - 87)
               else if 65 \<le> n \<and> n \<le> 90 then Some (n - 55)
               else None)
      in case d of None \<Rightarrow> None | Some x \<Rightarrow> (if x < radix then Some x else None))"

text \<open>
  The integer that the longest run of digits denotes (\<open>None\<close> for an empty run); its
  conversion to a double is in \<open>parse_int_string\<close>.
\<close>

fun read_digits :: "nat \<Rightarrow> string \<Rightarrow> int option \<Rightarrow> int option" where
  "read_digits radix [] acc = acc"
| "read_digits radix (c # cs) acc =
     (case digit_val radix c of
        None \<Rightarrow> acc
      | Some d \<Rightarrow>
          read_digits radix cs (Some ((case acc of None \<Rightarrow> 0 | Some a \<Rightarrow> a) * int radix + int d)))"

definition parse_magnitude :: "string \<Rightarrow> int option" where
  "parse_magnitude s =
     (if take 2 s = ''0x'' \<or> take 2 s = ''0X'' then read_digits 16 (drop 2 s) None
      else read_digits 10 s None)"

definition parse_int_string :: "string \<Rightarrow> jsval option" where
  "parse_int_string s =
     (let t = dropWhile is_space s;
          neg = (take 1 t = ''-'');
          u = (if take 1 t = ''-'' \<or> take 1 t = ''+'' then drop 1 t else t)
      in case parse_magnitude u of
           None \<Rightarrow> Some JNaN
         | Some m \<Rightarrow> if safe_int m then Some (JNum (if neg then - m else m)) else None)"

fun join_comma :: "string list \<Rightarrow> string" where
  "join_comma [] = []"
| "join_comma [s] = s"
| "join_comma (s # t # ss) = s @ '','' @ join_comma (t # ss)"

fun to_string :: "jsval \<Rightarrow> string" where
  "to_string JUndefined = ''undefined''"
| "to_string JNull = ''null''"
| "to_string (JBool b) = (if b then ''true'' else ''false'')"
| "to_string (JNum n) = string_of_int n"
| "to_string JNaN = ''NaN''"
| "to_string (JStr s) = s"
| "to_string (JArr xs) =
     join_comma (map (\<lambda>x. if x = JUndefined \<or> x = JNull then [] else to_string x) xs)"
| "to_string (JObj kvs) = ''[object Object]''"

text \<open>
  \<open>to_string\<close> is \<^verbatim>\<open>ToString\<close> on the values whose numbers, as far as they are printed
  (a number itself and the numbers in nested arrays), are below \<open>2^53\<close> in magnitude;
  \<^verbatim>\<open>ToString\<close> prints larger ones rounded, and from \<open>10^21\<close> on in exponent form.
\<close>

fun prints_plain :: "jsval \<Rightarrow> bool" where
  "prints_plain (JNum n) = safe_int n"
| "prints_plain (JArr xs) = (\<forall>x \<in> set xs. prints_plain x)"
| "prints_plain v = True"

text \<open>
  \<^verbatim>\<open>parseInt\<close>: \<open>None\<close> where the argument prints a number of magnitude \<open>2^53\<close> or more,
  or the digits read denote one. A number below that prints as its decimal numeral and is
  read back unchanged, so that case is written directly.
\<close>

definition parseInt :: "jsval \<Rightarrow> jsval option" where
  "parseInt v =
     (if \<not> prints_plain v then None
      else (case v of JNum n \<Rightarrow> Some (JNum n) | _ \<Rightarrow> parse_int_string (to_string v)))"

section \<open>Query parameters (neo4jService.executeQuery, getUsers, getStories)\<close>

fun str_includes :: "string \<Rightarrow> string \<Rightarrow> bool" where
  "str_includes [] t = (t = [])"
| "str_includes (c # cs) t = (take (length t) (c # cs) = t \<or> str_includes cs t)"

text \<open>
  The loop at the head of \<^verbatim>\<open>executeQuery\<close>: every parameter whose key is \<^verbatim>\<open>limit\<close> or
  contains \<^verbatim>\<open>limit\<close> or \<^verbatim>\<open>skip\<close> becomes \<^verbatim>\<open>parseInt(value) || 0\<close>; the others are
  copied. The result is the parameter object handed to \<^verbatim>\<open>session.run\<close>.
\<close>

definition process_param :: "string \<times> jsval \<Rightarrow> (string \<times> jsval) option" where
  "process_param kv =
     (if fst kv = ''limit'' \<or> str_includes (fst kv) ''limit'' \<or> str_includes (fst kv) ''skip''
      then map_option (\<lambda>n. (fst kv, js_or n (JNum 0))) (parseInt (snd kv))
      else Some kv)"

definition processedParams :: "(string \<times> jsval) list \<Rightarrow> (string \<times> jsval) list option" where
  "processedParams params = those (map process_param params)"

text \<open>A default parameter value applies when the argument is \<^verbatim>\<open>undefined\<close>.\<close>

definition default_arg :: "jsval \<Rightarrow> jsval \<Rightarrow> jsval" where
  "default_arg v d = (if v = JUndefined then d else v)"

text \<open>\<^verbatim>\<open>getUsers(skip = 0, limit = 50)\<close>: the parameters that reach the store.\<close>

definition getUsers_params :: "jsval \<Rightarrow> jsval \<Rightarrow> (string \<times> jsval) list option" where
  "getUsers_params skip limit =
     (case parseInt (default_arg skip (JNum 0)) of
        None \<Rightarrow> None
      | Some intSkip \<Rightarrow>
          (case parseInt (default_arg limit (JNum 50)) of
             None \<Rightarrow> None
           | Some intLimit \<Rightarrow> processedParams [(''skip'', intSkip), (''limit'', intLimit)]))"

text \<open>\<^verbatim>\<open>getStories(skip = 0, limit = 50)\<close>: the parameters that reach the store.\<close>

definition getStories_params :: "jsval \<Rightarrow> jsval \<Rightarrow> (string \<times> jsval) list option" where
  "getStories_params skip limit =
     (case parseInt (default_arg skip (JNum 0)) of
        None \<Rightarrow> None
      | Some s \<Rightarrow>
          (case parseInt (default_arg limit (JNum 50)) of
             None \<Rightarrow> None
           | Some l \<Rightarrow>
               (let intSkip = js_or s (JNum 0);
                    intLimit = js_or l (JNum 50)
                in processedParams [(''skip'', intSkip), (''limit'', intLimit)])))"

section \<open>The network formatter (dataService.formatNetworkForD3, formatPathData)\<close>

text \<open>
  \<^verbatim>\<open>Math.random().toString(36).substr(2, 9)\<close> is read from an oracle: \<open>rnd c\<close> is the
  text produced by call number \<open>c\<close>, and the counter is threaded through the formatter.
  \<^verbatim>\<open>v || `node-${...}`\<close> draws from the oracle only when \<open>v\<close> is falsy.
\<close>

definition or_random :: "(nat \<Rightarrow> string) \<Rightarrow> string \<Rightarrow> jsval \<Rightarrow> nat \<Rightarrow> jsval \<times> nat" where
  "or_random rnd pre v c = (if truthy v then (v, c) else (JStr (pre @ rnd c), Suc c))"

text \<open>
  \<^verbatim>\<open>n.labels && Array.isArray(n.labels) ? n.labels[0] : 'Unknown'\<close>; the first element of
  an empty array is \<^verbatim>\<open>undefined\<close>.
\<close>

definition node_group :: "jsval \<Rightarrow> jsval" where
  "node_group n =
     (let ls = js_get n ''labels''
      in if truthy ls \<and> is_array ls
         then (case ls of JArr (x # xs) \<Rightarrow> x | _ \<Rightarrow> JUndefined)
         else JStr ''Unknown'')"

text \<open>\<^verbatim>\<open>{ id: nid, name: n.name || 'Unknown', group: ..., ...n }\<close>\<close>

definition make_node :: "jsval \<Rightarrow> jsval \<Rightarrow> jsval" where
  "make_node nid n =
     JObj (spread [(''id'', nid),
                   (''name'', js_or (js_get n ''name'') (JStr ''Unknown'')),
                   (''group'', node_group n)]
                  (own_props n))"

text \<open>\<^verbatim>\<open>{ source: startId, target: endId, type: r.type || 'Unknown', id: relId, ...r }\<close>\<close>

definition make_link :: "jsval \<Rightarrow> jsval \<Rightarrow> jsval \<Rightarrow> jsval \<Rightarrow> jsval" where
  "make_link startId endId relId r =
     JObj (spread [(''source'', startId),
                   (''target'', endId),
                   (''type'', js_or (js_get r ''type'') (JStr ''Unknown'')),
                   (''id'', relId)]
                  (own_props r))"

text \<open>
  A \<^verbatim>\<open>Map\<close> is the list of its entries in insertion order. It compares strings, numbers
  and the other primitive keys as values, and an array or an object by identity. The
  formatters look every key up at another place of their input, and no two places share
  an array or object: such a key is never found.
\<close>

type_synonym node_map = "(jsval \<times> jsval) list"

fun by_identity :: "jsval \<Rightarrow> bool" where
  "by_identity (JArr xs) = True"
| "by_identity (JObj kvs) = True"
| "by_identity v = False"

definition map_has :: "node_map \<Rightarrow> jsval \<Rightarrow> bool" where
  "map_has m k = (\<not> by_identity k \<and> k \<in> set (map fst m))"

definition map_put :: "node_map \<Rightarrow> jsval \<Rightarrow> jsval \<Rightarrow> node_map" where
  "map_put m k v = (if map_has m k then m else m @ [(k, v)])"

text \<open>\<^verbatim>\<open>!segment || !segment.start || !segment.end || !segment.relationship\<close>\<close>

definition invalid_segment :: "jsval \<Rightarrow> bool" where
  "invalid_segment seg =
     (\<not> truthy seg \<or> \<not> truthy (js_get seg ''start'') \<or> \<not> truthy (js_get seg ''end'')
      \<or> \<not> truthy (js_get seg ''relationship''))"

text \<open>
  The body of \<^verbatim>\<open>path.segments.forEach\<close> in \<^verbatim>\<open>formatNetworkForD3\<close>, on the state
  (\<^verbatim>\<open>nodeMap\<close>, \<^verbatim>\<open>links\<close>, oracle counter).
\<close>

definition d3_segment ::
  "(nat \<Rightarrow> string) \<Rightarrow> node_map \<times> jsval list \<times> nat \<Rightarrow> jsval \<Rightarrow> node_map \<times> jsval list \<times> nat" where
  "d3_segment rnd st seg =
     (case st of (nodeMap, links, c) \<Rightarrow>
        if invalid_segment seg then st
        else
          (case or_random rnd ''node-'' (js_get (js_get seg ''start'') ''id'') c of (startId, c1) \<Rightarrow>
           case or_random rnd ''node-'' (js_get (js_get seg ''end'') ''id'') c1 of (endId, c2) \<Rightarrow>
           let nodeMap1 = map_put nodeMap startId (make_node startId (js_get seg ''start''));
               nodeMap2 = map_put nodeMap1 endId (make_node endId (js_get seg ''end''))
           in case or_random rnd ''rel-'' (js_get (js_get seg ''relationship'') ''id'') c2 of (relId, c3) \<Rightarrow>
                (nodeMap2,
                 links @ [make_link startId endId relId (js_get seg ''relationship'')],
                 c3)))"

text \<open>The body of \<^verbatim>\<open>data.paths.forEach\<close>: a path without a segment array is skipped.\<close>

definition d3_path ::
  "(nat \<Rightarrow> string) \<Rightarrow> node_map \<times> jsval list \<times> nat \<Rightarrow> jsval \<Rightarrow> node_map \<times> jsval list \<times> nat" where
  "d3_path rnd st path =
     (if \<not> truthy path \<or> \<not> truthy (js_get path ''segments'') then st
      else (case js_get path ''segments'' of
              JArr segs \<Rightarrow> foldl (d3_segment rnd) st segs
            | _ \<Rightarrow> st))"

definition empty_network :: jsval where
  "empty_network = JObj [(''nodes'', JArr []), (''links'', JArr [])]"

definition formatNetworkForD3 :: "(nat \<Rightarrow> string) \<Rightarrow> nat \<Rightarrow> jsval \<Rightarrow> jsval \<times> nat" where
  "formatNetworkForD3 rnd c data =
     (if \<not> truthy data then (empty_network, c)
      else if truthy (js_get data ''nodes'') \<and> truthy (js_get data ''links'') then (data, c)
      else
        (case (case js_get data ''paths'' of
                 JArr paths \<Rightarrow> foldl (d3_path rnd) ([], [], c) paths
               | _ \<Rightarrow> ([], [], c))
         of (nodeMap, links, c') \<Rightarrow>
              (JObj [(''nodes'', JArr (map snd nodeMap)), (''links'', JArr links)], c')))"

text \<open>
  The body of \<^verbatim>\<open>segments.forEach\<close> in \<^verbatim>\<open>formatPathData\<close>: as above, and a node new to
  the map is also pushed on \<^verbatim>\<open>nodes\<close>. The state is (\<^verbatim>\<open>nodeMap\<close>, \<^verbatim>\<open>nodes\<close>,
  \<^verbatim>\<open>links\<close>, oracle counter).
\<close>

definition path_segment ::
  "(nat \<Rightarrow> string) \<Rightarrow> node_map \<times> jsval list \<times> jsval list \<times> nat \<Rightarrow> jsval
     \<Rightarrow> node_map \<times> jsval list \<times> jsval list \<times> nat" where
  "path_segment rnd st seg =
     (case st of (nodeMap, nodes, links, c) \<Rightarrow>
        if invalid_segment seg then st
        else
          (case or_random rnd ''node-'' (js_get (js_get seg ''start'') ''id'') c of (startId, c1) \<Rightarrow>
           case or_random rnd ''node-'' (js_get (js_get seg ''end'') ''id'') c1 of (endId, c2) \<Rightarrow>
           let startNode = make_node startId (js_get seg ''start'');
               nodes1 = (if map_has nodeMap startId then nodes else nodes @ [startNode]);
               nodeMap1 = map_put nodeMap startId startNode;
               endNode = make_node endId (js_get seg ''end'');
               nodes2 = (if map_has nodeMap1 endId then nodes1 else nodes1 @ [endNode]);
               nodeMap2 = map_put nodeMap1 endId endNode
           in case or_random rnd ''rel-'' (js_get (js_get seg ''relationship'') ''id'') c2 of (relId, c3) \<Rightarrow>
                (nodeMap2, nodes2,
                 links @ [make_link startId endId relId (js_get seg ''relationship'')],
                 c3)))"

datatype js_error = TypeError

text \<open>
  \<^verbatim>\<open>formatPathData\<close>. \<^verbatim>\<open>pathData.path.segments || []\<close> is iterated with \<^verbatim>\<open>forEach\<close>,
  which only an array has: any other truthy value raises a \<^verbatim>\<open>TypeError\<close>.
\<close>

definition formatPathData :: "(nat \<Rightarrow> string) \<Rightarrow> nat \<Rightarrow> jsval \<Rightarrow> js_error + (jsval \<times> nat)" where
  "formatPathData rnd c pathData =
     (if \<not> truthy pathData \<or> \<not> truthy (js_get pathData ''path'')
      then Inr (JObj [(''nodes'', JArr []), (''links'', JArr []), (''length'', JNum 0)], c)
      else
        (case js_or (js_get (js_get pathData ''path'') ''segments'') (JArr []) of
           JArr segs \<Rightarrow>
             (case foldl (path_segment rnd) ([], [], [], c) segs of (nodeMap, nodes, links, c') \<Rightarrow>
                Inr (JObj [(''nodes'', JArr nodes), (''links'', JArr links),
                           (''length'', js_or (js_get pathData ''pathLength'') (JNum (int (length segs))))],
                     c'))
         | _ \<Rightarrow> Inl TypeError))"

text \<open>Reading the two arrays of a formatted network back.\<close>

definition elements :: "jsval \<Rightarrow> jsval list" where
  "elements v = (case v of JArr xs \<Rightarrow> xs | _ \<Rightarrow> [])"

definition out_nodes :: "jsval \<Rightarrow> jsval list" where
  "out_nodes out = elements (js_get out ''nodes'')"

definition out_links :: "jsval \<Rightarrow> jsval list" where
  "out_links out = elements (js_get out ''links'')"

text \<open>
  The segments the two formatters visit, in order, and the node occurrences on them with
  the key under which each is looked up in \<^verbatim>\<open>nodeMap\<close> (its \<^verbatim>\<open>id\<close>, or the placeholder
  drawn for it).
\<close>

definition d3_segments :: "jsval \<Rightarrow> jsval list" where
  "d3_segments data =
     concat (map (\<lambda>path. if truthy path then elements (js_get path ''segments'') else [])
                 (elements (js_get data ''paths'')))"

definition path_segments :: "jsval \<Rightarrow> jsval list" where
  "path_segments pathData = elements (js_get (js_get pathData ''path'') ''segments'')"

fun occurrences :: "(nat \<Rightarrow> string) \<Rightarrow> nat \<Rightarrow> jsval list \<Rightarrow> (jsval \<times> jsval) list" where
  "occurrences rnd c [] = []"
| "occurrences rnd c (seg # segs) =
     (if invalid_segment seg then occurrences rnd c segs
      else
        (case or_random rnd ''node-'' (js_get (js_get seg ''start'') ''id'') c of (startId, c1) \<Rightarrow>
         case or_random rnd ''node-'' (js_get (js_get seg ''end'') ''id'') c1 of (endId, c2) \<Rightarrow>
         case or_random rnd ''rel-'' (js_get (js_get seg ''relationship'') ''id'') c2 of (relId, c3) \<Rightarrow>
           (startId, js_get seg ''start'') # (endId, js_get seg ''end'') # occurrences rnd c3 segs))"

text \<open>
  A node object whose \<^verbatim>\<open>id\<close> is absent or truthy, and a relationship object with no
  property called \<^verbatim>\<open>source\<close> or \<^verbatim>\<open>target\<close>: the objects on which the spread at the end of
  the node and link literals leaves the computed \<^verbatim>\<open>id\<close>, \<^verbatim>\<open>source\<close> and \<^verbatim>\<open>target\<close> alone.
  An \<^verbatim>\<open>id\<close> that is a string or a number is moreover one that \<^verbatim>\<open>nodeMap\<close> finds again.
\<close>

definition has_key :: "jsval \<Rightarrow> string \<Rightarrow> bool" where
  "has_key v k = (k \<in> set (map fst (own_props v)))"

definition id_absent_or_truthy :: "jsval \<Rightarrow> bool" where
  "id_absent_or_truthy n = (\<not> has_key n ''id'' \<or> truthy (js_get n ''id''))"

definition node_ids_plain :: "jsval \<Rightarrow> bool" where
  "node_ids_plain seg =
     (id_absent_or_truthy (js_get seg ''start'') \<and> id_absent_or_truthy (js_get seg ''end''))"

definition node_ids_primitive :: "jsval \<Rightarrow> bool" where
  "node_ids_primitive seg =
     (\<not> by_identity (js_get (js_get seg ''start'') ''id'')
      \<and> \<not> by_identity (js_get (js_get seg ''end'') ''id''))"

definition link_ends_plain :: "jsval \<Rightarrow> bool" where
  "link_ends_plain seg =
     (\<not> has_key (js_get seg ''relationship'') ''source''
      \<and> \<not> has_key (js_get seg ''relationship'') ''target'')"

definition node_id :: "jsval \<Rightarrow> jsval" where
  "node_id n = js_get n ''id''"

text \<open>Entering one node occurrence in \<^verbatim>\<open>nodeMap\<close>: \<^verbatim>\<open>if (!nodeMap.has(k)) nodeMap.set(k, {...})\<close>.\<close>

definition add_occ :: "node_map \<Rightarrow> jsval \<times> jsval \<Rightarrow> node_map" where
  "add_occ m ke = map_put m (fst ke) (make_node (fst ke) (snd ke))"

text \<open>Every link of \<open>ls\<close> starts and ends at a key of the node map \<open>m\<close>.\<close>

definition links_keyed :: "node_map \<Rightarrow> jsval list \<Rightarrow> bool" where
  "links_keyed m ls \<longleftrightarrow>
     (\<forall>l \<in> set ls. js_get l ''source'' \<in> fst ` set m \<and> js_get l ''target'' \<in> fst ` set m)"

section \<open>The graph store and the queries run against it\<close>

text \<open>
  The store is the labelled property graph that the Cypher text of the services is run
  against. A node has an internal identity, labels and properties; a relationship has an
  internal identity, a type, the identities of its two ends and properties, which the
  driver hands over as the fields \<^verbatim>\<open>identity\<close>, \<^verbatim>\<open>type\<close>, \<^verbatim>\<open>start\<close>, \<^verbatim>\<open>end\<close> and
  \<^verbatim>\<open>properties\<close> of its \<^verbatim>\<open>Relationship\<close> objects. In a list of properties the first
  binding of a key is the property. The lists of nodes and relationships give the order
  in which the store scans them. With \<^verbatim>\<open>disableLosslessIntegers\<close> (config/db.js)
  identities and path lengths reach the services as plain numbers; an identity below
  \<open>2^53\<close> arrives exact. \<open>forbid_common_nodes\<close> is the store's setting for
  \<^verbatim>\<open>shortestPath\<close> between a node and itself: when set (the default) such a call fails,
  otherwise it yields no path.
\<close>

record gnode =
  node_identity :: nat
  node_labels :: "string list"
  node_properties :: "(string \<times> jsval) list"

record grel =
  rel_identity :: nat
  rel_type :: string
  rel_start :: nat
  rel_end :: nat
  rel_properties :: "(string \<times> jsval) list"

record graph =
  graph_nodes :: "gnode list"
  graph_rels :: "grel list"
  forbid_common_nodes :: bool

datatype store_error = CommonNodes | InvalidLimit

text \<open>\<^verbatim>\<open>MATCH (n:Label {id: $v})\<close>: the nodes with that label whose \<^verbatim>\<open>id\<close> property is \<open>v\<close>.\<close>

definition match_nodes :: "graph \<Rightarrow> string \<Rightarrow> jsval \<Rightarrow> gnode list" where
  "match_nodes g l v =
     filter (\<lambda>n. l \<in> set (node_labels n) \<and> map_of (node_properties n) ''id'' = Some v)
            (graph_nodes g)"

definition nodes_with_identity :: "graph \<Rightarrow> nat \<Rightarrow> gnode list" where
  "nodes_with_identity g i = filter (\<lambda>n. node_identity n = i) (graph_nodes g)"

subsection \<open>Variable-length patterns and shortestPath\<close>

text \<open>
  A path is the list of its segments in the direction walked: the identity of the node
  left, the relationship, the identity of the node reached. \<^verbatim>\<open>-[r*]-\<close> matches one or
  more relationships in either direction and no relationship twice, so a path of such a
  pattern never has more segments than the store has relationships.
\<close>

type_synonym segment = "nat \<times> grel \<times> nat"

definition seg_rel :: "segment \<Rightarrow> grel" where
  "seg_rel s = fst (snd s)"

definition path_end :: "nat \<Rightarrow> segment list \<Rightarrow> nat" where
  "path_end src p = (if p = [] then src else snd (snd (last p)))"

definition touches :: "grel \<Rightarrow> nat \<Rightarrow> bool" where
  "touches r n = (rel_start r = n \<or> rel_end r = n)"

definition other_end :: "grel \<Rightarrow> nat \<Rightarrow> nat" where
  "other_end r n = (if rel_start r = n then rel_end r else rel_start r)"

definition steps :: "graph \<Rightarrow> (grel \<Rightarrow> bool) \<Rightarrow> nat \<Rightarrow> segment list \<Rightarrow> segment list list" where
  "steps g ok src p =
     map (\<lambda>r. p @ [(path_end src p, r, other_end r (path_end src p))])
         (filter (\<lambda>r. ok r \<and> touches r (path_end src p)
                      \<and> rel_identity r \<notin> set (map (\<lambda>s. rel_identity (seg_rel s)) p))
                 (graph_rels g))"

fun trails :: "graph \<Rightarrow> (grel \<Rightarrow> bool) \<Rightarrow> nat \<Rightarrow> nat \<Rightarrow> segment list list" where
  "trails g ok src 0 = [[]]"
| "trails g ok src (Suc k) = concat (map (steps g ok src) (trails g ok src k))"

text \<open>
  \<^verbatim>\<open>shortestPath((a)-[r:TYPES*]-(b)) WHERE pred\<close>: among the paths from \<open>a\<close> to \<open>b\<close> that
  match the pattern and satisfy the predicate, one with the fewest segments; which one is
  the store's choice, here the first found.
\<close>

definition hits ::
  "graph \<Rightarrow> (grel \<Rightarrow> bool) \<Rightarrow> (segment list \<Rightarrow> bool) \<Rightarrow> nat \<Rightarrow> nat \<Rightarrow> nat \<Rightarrow> segment list list" where
  "hits g ok pred src tgt k = filter (\<lambda>p. path_end src p = tgt \<and> pred p) (trails g ok src k)"

definition shortest_path ::
  "graph \<Rightarrow> (grel \<Rightarrow> bool) \<Rightarrow> (segment list \<Rightarrow> bool) \<Rightarrow> nat \<Rightarrow> nat \<Rightarrow> segment list option" where
  "shortest_path g ok pred src tgt =
     (case concat (map (hits g ok pred src tgt) [1..<Suc (length (graph_rels g))]) of
        [] \<Rightarrow> None
      | p # ps \<Rightarrow> Some p)"

definition shortestPath_call ::
  "graph \<Rightarrow> (grel \<Rightarrow> bool) \<Rightarrow> (segment list \<Rightarrow> bool) \<Rightarrow> gnode \<times> gnode
     \<Rightarrow> store_error + segment list option" where
  "shortestPath_call g ok pred ab =
     (if node_identity (fst ab) = node_identity (snd ab)
      then (if forbid_common_nodes g then Inl CommonNodes else Inr None)
      else Inr (shortest_path g ok pred (node_identity (fst ab)) (node_identity (snd ab))))"

text \<open>The rows of a query: one per input row with a result; an error fails the query.\<close>

fun collect_rows :: "('a \<Rightarrow> store_error + 'b option) \<Rightarrow> 'a list \<Rightarrow> store_error + 'b list" where
  "collect_rows f [] = Inr []"
| "collect_rows f (x # xs) =
     (case f x of
        Inl e \<Rightarrow> Inl e
      | Inr r \<Rightarrow>
          (case collect_rows f xs of
             Inl e \<Rightarrow> Inl e
           | Inr rs \<Rightarrow> Inr (case r of None \<Rightarrow> rs | Some y \<Rightarrow> y # rs)))"

subsection \<open>Three-valued predicates\<close>

text \<open>
  In Cypher a missing property is \<^verbatim>\<open>null\<close>, \<^verbatim>\<open>null = x\<close> is \<^verbatim>\<open>null\<close>, \<^verbatim>\<open>NONE(...)\<close> is
  \<^verbatim>\<open>false\<close> when the predicate holds of some element, \<^verbatim>\<open>null\<close> when it holds of none but
  is \<^verbatim>\<open>null\<close> for some, and \<^verbatim>\<open>true\<close> otherwise; \<^verbatim>\<open>WHERE\<close> keeps a row only on \<^verbatim>\<open>true\<close>.
  \<open>None\<close> stands for \<^verbatim>\<open>null\<close>.
\<close>

definition cypher_eq :: "jsval option \<Rightarrow> jsval \<Rightarrow> bool option" where
  "cypher_eq a b = (case a of None \<Rightarrow> None | Some x \<Rightarrow> Some (x = b))"

definition cypher_none :: "bool option list \<Rightarrow> bool option" where
  "cypher_none xs =
     (if Some True \<in> set xs then Some False else if None \<in> set xs then None else Some True)"

text \<open>\<^verbatim>\<open>WHERE NONE(rel IN r WHERE rel.storyId = $storyId)\<close>\<close>

definition none_tagged :: "jsval \<Rightarrow> segment list \<Rightarrow> bool" where
  "none_tagged storyId p =
     (cypher_none (map (\<lambda>s. cypher_eq (map_of (rel_properties (seg_rel s)) ''storyId'') storyId) p)
        = Some True)"

definition no_filter :: "segment list \<Rightarrow> bool" where
  "no_filter p = True"

text \<open>
  The exclusion in the words of the specification, for comparison with \<open>none_tagged\<close>:
  the path before the share ignores any \<^verbatim>\<open>SHARED_WITH\<close> edge whose story tag equals
  the story's id, and no other edge.
\<close>

definition spec_excluding_tag :: "jsval \<Rightarrow> segment list \<Rightarrow> bool" where
  "spec_excluding_tag tag p =
     list_all (\<lambda>s. \<not> (rel_type (seg_rel s) = ''SHARED_WITH''
                          \<and> map_of (rel_properties (seg_rel s)) ''storyId'' = Some tag)) p"

text \<open>\<^verbatim>\<open>[r:KNOWS|SHARED_WITH*]\<close> and \<^verbatim>\<open>[*]\<close>\<close>

definition knows_or_shared_with :: "grel \<Rightarrow> bool" where
  "knows_or_shared_with r = (rel_type r = ''KNOWS'' \<or> rel_type r = ''SHARED_WITH'')"

definition any_type :: "grel \<Rightarrow> bool" where
  "any_type r = True"

section \<open>neo4jService\<close>

datatype api_error = BadRequest | NotFound string | QueryFailed store_error

subsection \<open>Records as executeQuery shapes them\<close>

text \<open>
  \<^verbatim>\<open>x.identity ? x.identity.toString() : `node-${...}`\<close>: the identity is a number, so
  the identity 0 is falsy and takes the other branch.
\<close>

definition identity_string :: "(nat \<Rightarrow> string) \<Rightarrow> string \<Rightarrow> nat \<Rightarrow> nat \<Rightarrow> jsval \<times> nat" where
  "identity_string rnd pre i c =
     (if i \<noteq> 0 then (JStr (string_of_nat i), c) else (JStr (pre @ rnd c), Suc c))"

text \<open>An identity that arrives exact and is truthy: below \<open>2^53\<close> and not 0.\<close>

definition plain_identity :: "nat \<Rightarrow> bool" where
  "plain_identity i = (0 < i \<and> i < 2 ^ 53)"

text \<open>
  \<^verbatim>\<open>x.startNodeIdentity ? x.startNodeIdentity.toString() : 'unknown'\<close>, and the same for
  \<^verbatim>\<open>endNodeIdentity\<close>. A \<^verbatim>\<open>Relationship\<close> of the driver has no property of either name
  (the identities of its ends are its \<^verbatim>\<open>start\<close> and \<^verbatim>\<open>end\<close>), so both reads give
  \<^verbatim>\<open>undefined\<close>.
\<close>

definition startNodeIdentity :: "grel \<Rightarrow> jsval" where
  "startNodeIdentity r = JUndefined"

definition endNodeIdentity :: "grel \<Rightarrow> jsval" where
  "endNodeIdentity r = JUndefined"

definition end_identity_string :: "jsval \<Rightarrow> jsval" where
  "end_identity_string v = (if truthy v then JStr (to_string v) else JStr ''unknown'')"

text \<open>\<^verbatim>\<open>{ ...properties, id: ..., labels: labels || [] }\<close>\<close>

definition shape_node :: "(nat \<Rightarrow> string) \<Rightarrow> nat \<Rightarrow> gnode \<Rightarrow> jsval \<times> nat" where
  "shape_node rnd c n =
     (case identity_string rnd ''node-'' (node_identity n) c of (i, c') \<Rightarrow>
        (JObj (spread (spread [] (own_props (JObj (node_properties n))))
                      [(''id'', i), (''labels'', JArr (map JStr (node_labels n)))]),
         c'))"

text \<open>\<^verbatim>\<open>{ ...properties, id: ..., type: type || 'UNKNOWN', startNodeId: ..., endNodeId: ... }\<close>\<close>

definition shape_rel :: "(nat \<Rightarrow> string) \<Rightarrow> nat \<Rightarrow> grel \<Rightarrow> jsval \<times> nat" where
  "shape_rel rnd c r =
     (case identity_string rnd ''rel-'' (rel_identity r) c of (i, c') \<Rightarrow>
        (JObj (spread (spread [] (own_props (JObj (rel_properties r))))
                      [(''id'', i),
                       (''type'', js_or (JStr (rel_type r)) (JStr ''UNKNOWN'')),
                       (''startNodeId'', end_identity_string (startNodeIdentity r)),
                       (''endNodeId'', end_identity_string (endNodeIdentity r))]),
         c'))"

fun shape_list :: "(nat \<Rightarrow> 'a \<Rightarrow> jsval \<times> nat) \<Rightarrow> nat \<Rightarrow> 'a list \<Rightarrow> jsval list \<times> nat" where
  "shape_list f c [] = ([], c)"
| "shape_list f c (x # xs) =
     (case f c x of (y, c1) \<Rightarrow> case shape_list f c1 xs of (ys, c2) \<Rightarrow> (y # ys, c2))"

text \<open>
  A segment of a path: its start node, relationship and end node, each shaped as above; a
  missing node becomes \<^verbatim>\<open>{ id: `node-${...}`, labels: [] }\<close>.
\<close>

definition shape_end :: "(nat \<Rightarrow> string) \<Rightarrow> graph \<Rightarrow> nat \<Rightarrow> nat \<Rightarrow> jsval \<times> nat" where
  "shape_end rnd g c i =
     (case nodes_with_identity g i of
        n # ns \<Rightarrow> shape_node rnd c n
      | [] \<Rightarrow> (JObj [(''id'', JStr (''node-'' @ rnd c)), (''labels'', JArr [])], Suc c))"

definition shape_segment :: "(nat \<Rightarrow> string) \<Rightarrow> graph \<Rightarrow> nat \<Rightarrow> segment \<Rightarrow> jsval \<times> nat" where
  "shape_segment rnd g c s =
     (case shape_end rnd g c (fst s) of (a, c1) \<Rightarrow>
      case shape_rel rnd c1 (seg_rel s) of (r, c2) \<Rightarrow>
      case shape_end rnd g c2 (snd (snd s)) of (b, c3) \<Rightarrow>
        (JObj [(''start'', a), (''relationship'', r), (''end'', b)], c3))"

subsection \<open>findShortestPath\<close>

text \<open>
  \<^verbatim>\<open>MATCH path = shortestPath((source:User {id: $sourceId})-[*]-(target:User {id: $targetId}))
  RETURN path, length(path) AS pathLength\<close>, first record or \<^verbatim>\<open>undefined\<close>. A failure of
  the store is rethrown by \<^verbatim>\<open>executeQuery\<close> as an \<^verbatim>\<open>ApiError\<close> with status 500.
\<close>

definition findShortestPath_rows :: "graph \<Rightarrow> jsval \<Rightarrow> jsval \<Rightarrow> store_error + segment list list" where
  "findShortestPath_rows g sourceId targetId =
     collect_rows (shortestPath_call g any_type no_filter)
       (concat (map (\<lambda>a. map (\<lambda>b. (a, b)) (match_nodes g ''User'' targetId))
                    (match_nodes g ''User'' sourceId)))"

definition findShortestPath ::
  "(nat \<Rightarrow> string) \<Rightarrow> nat \<Rightarrow> graph \<Rightarrow> jsval \<Rightarrow> jsval \<Rightarrow> api_error + (jsval \<times> nat)" where
  "findShortestPath rnd c g sourceId targetId =
     (case findShortestPath_rows g sourceId targetId of
        Inl e \<Rightarrow> Inl (QueryFailed e)
      | Inr [] \<Rightarrow> Inr (JUndefined, c)
      | Inr (p # ps) \<Rightarrow>
          (case shape_list (shape_segment rnd g) c p of (segs, c') \<Rightarrow>
             Inr (JObj [(''path'', JObj [(''segments'', JArr segs)]),
                        (''pathLength'', JNum (int (length p)))],
                  c')))"

subsection \<open>getNetworkData\<close>

text \<open>
  \<^verbatim>\<open>MATCH (u:User) WITH u LIMIT toInteger($limit)
  OPTIONAL MATCH (u)-[r]-(related:User) WHERE id(related) < id(u)
  RETURN COLLECT(DISTINCT u) AS nodes, COLLECT(DISTINCT r) AS relationships\<close>.
  A negative limit is an error of the store.
\<close>

definition is_user :: "gnode \<Rightarrow> bool" where
  "is_user n = (''User'' \<in> set (node_labels n))"

definition joins_lower_user :: "graph \<Rightarrow> gnode \<Rightarrow> grel \<Rightarrow> bool" where
  "joins_lower_user g u r =
     (touches r (node_identity u)
      \<and> other_end r (node_identity u) < node_identity u
      \<and> filter is_user (nodes_with_identity g (other_end r (node_identity u))) \<noteq> [])"

definition network_query :: "graph \<Rightarrow> int \<Rightarrow> store_error + (gnode list \<times> grel list)" where
  "network_query g lim =
     (if lim < 0 then Inl InvalidLimit
      else Inr (remdups (take (nat lim) (filter is_user (graph_nodes g))),
                remdups (concat (map (\<lambda>u. filter (joins_lower_user g u) (graph_rels g))
                                     (take (nat lim) (filter is_user (graph_nodes g)))))))"

text \<open>\<^verbatim>\<open>{ id: node.id, label: node.name, group: node.labels[0], ...node }\<close>\<close>

definition network_node :: "jsval \<Rightarrow> jsval" where
  "network_node node =
     JObj (spread [(''id'', js_get node ''id''),
                   (''label'', js_get node ''name''),
                   (''group'', (case js_get node ''labels'' of JArr (x # xs) \<Rightarrow> x | _ \<Rightarrow> JUndefined))]
                  (own_props node))"

text \<open>\<^verbatim>\<open>{ source: rel.startNodeId, target: rel.endNodeId, type: rel.type, ...rel }\<close>\<close>

definition network_link :: "jsval \<Rightarrow> jsval" where
  "network_link rel =
     JObj (spread [(''source'', js_get rel ''startNodeId''),
                   (''target'', js_get rel ''endNodeId''),
                   (''type'', js_get rel ''type'')]
                  (own_props rel))"

text \<open>
  \<^verbatim>\<open>getNetworkData(limit = 100)\<close>. The number that reaches \<^verbatim>\<open>LIMIT\<close> is
  \<^verbatim>\<open>parseInt(parseInt(limit)) || 0\<close>; the query always returns one record.
\<close>

definition network_limit :: "jsval \<Rightarrow> int option" where
  "network_limit limit =
     (case parseInt (default_arg limit (JNum 100)) of
        None \<Rightarrow> None
      | Some intLimit \<Rightarrow>
          (case parseInt intLimit of
             None \<Rightarrow> None
           | Some n \<Rightarrow> Some (case js_or n (JNum 0) of JNum i \<Rightarrow> i | _ \<Rightarrow> 0)))"

text \<open>The result is \<open>None\<close> where the limit is a number the model does not follow.\<close>

definition getNetworkData ::
  "(nat \<Rightarrow> string) \<Rightarrow> nat \<Rightarrow> graph \<Rightarrow> jsval \<Rightarrow> (api_error + (jsval \<times> nat)) option" where
  "getNetworkData rnd c g limit =
     (case network_limit limit of
        None \<Rightarrow> None
      | Some lim \<Rightarrow>
          Some (case network_query g lim of
                  Inl e \<Rightarrow> Inl (QueryFailed e)
                | Inr (us, rs) \<Rightarrow>
                    (case shape_list (shape_node rnd) c us of (nodes, c1) \<Rightarrow>
                     case shape_list (shape_rel rnd) c1 rs of (relationships, c2) \<Rightarrow>
                       Inr (JObj [(''nodes'', JArr (map network_node nodes)),
                                  (''links'', JArr (map network_link relationships))],
                            c2))))"

subsection \<open>shareStory\<close>

text \<open>
  \<^verbatim>\<open>MATCH (story:Story {id: $storyId}) MATCH (sender:User {id: $senderId})
  MATCH (receiver:User {id: $receiverId}) WHERE sender <> receiver
  CREATE (sender)-[:SHARED {timestamp: datetime()}]->(story)
  CREATE (sender)-[:SHARED_WITH {timestamp: datetime(), storyId: $storyId}]->(receiver)\<close>:
  the two relationships are created once for every row that passes the \<^verbatim>\<open>WHERE\<close>. A new
  relationship gets an identity above all those in the store; \<open>now\<close> is the store's clock.
\<close>

definition share_rows :: "graph \<Rightarrow> jsval \<Rightarrow> jsval \<Rightarrow> jsval \<Rightarrow> (gnode \<times> gnode \<times> gnode) list" where
  "share_rows g storyId senderId receiverId =
     concat (map (\<lambda>story.
       concat (map (\<lambda>sender.
         map (\<lambda>receiver. (story, sender, receiver))
             (filter (\<lambda>receiver. node_identity sender \<noteq> node_identity receiver)
                     (match_nodes g ''User'' receiverId)))
         (match_nodes g ''User'' senderId)))
       (match_nodes g ''Story'' storyId))"

definition fresh_rel_identity :: "graph \<Rightarrow> nat" where
  "fresh_rel_identity g = Suc (foldr max (map rel_identity (graph_rels g)) 0)"

definition create_share :: "jsval \<Rightarrow> jsval \<Rightarrow> graph \<Rightarrow> gnode \<times> gnode \<times> gnode \<Rightarrow> graph" where
  "create_share now storyId g row =
     (case row of (story, sender, receiver) \<Rightarrow>
        g\<lparr>graph_rels := graph_rels g @
            [\<lparr>rel_identity = fresh_rel_identity g, rel_type = ''SHARED'',
              rel_start = node_identity sender, rel_end = node_identity story,
              rel_properties = [(''timestamp'', now)]\<rparr>,
             \<lparr>rel_identity = Suc (fresh_rel_identity g), rel_type = ''SHARED_WITH'',
              rel_start = node_identity sender, rel_end = node_identity receiver,
              rel_properties = [(''timestamp'', now), (''storyId'', storyId)]\<rparr>]\<rparr>)"

definition shareStory :: "jsval \<Rightarrow> graph \<Rightarrow> jsval \<Rightarrow> jsval \<Rightarrow> jsval \<Rightarrow> graph" where
  "shareStory now g storyId senderId receiverId =
     foldl (create_share now storyId) g (share_rows g storyId senderId receiverId)"

section \<open>The share handler (POST /api/stories/share)\<close>

text \<open>
  The two path queries of the handler:
  \<^verbatim>\<open>MATCH (author:User)-[:AUTHORED]->(s:Story {id: $storyId})
  MATCH (receiver:User {id: $receiverId})
  CALL { WITH author, receiver
         MATCH p = shortestPath((author)-[r:KNOWS|SHARED_WITH*]-(receiver))
         [WHERE NONE(rel IN r WHERE rel.storyId = $storyId)]
         RETURN length(p) AS pathLength }
  RETURN pathLength\<close>
\<close>

definition authors_of :: "graph \<Rightarrow> jsval \<Rightarrow> gnode list" where
  "authors_of g storyId =
     concat (map (\<lambda>s.
       concat (map (\<lambda>r. filter is_user (nodes_with_identity g (rel_start r)))
                   (filter (\<lambda>r. rel_type r = ''AUTHORED'' \<and> rel_end r = node_identity s)
                           (graph_rels g))))
       (match_nodes g ''Story'' storyId))"

definition path_length_rows ::
  "graph \<Rightarrow> (segment list \<Rightarrow> bool) \<Rightarrow> jsval \<Rightarrow> jsval \<Rightarrow> store_error + nat list" where
  "path_length_rows g pred storyId receiverId =
     collect_rows (\<lambda>ab. map_sum id (map_option length) (shortestPath_call g knows_or_shared_with pred ab))
       (concat (map (\<lambda>a. map (\<lambda>b. (a, b)) (match_nodes g ''User'' receiverId))
                    (authors_of g storyId)))"

definition pathBeforeShare :: "graph \<Rightarrow> jsval \<Rightarrow> jsval \<Rightarrow> store_error + nat list" where
  "pathBeforeShare g storyId receiverId = path_length_rows g (none_tagged storyId) storyId receiverId"

definition pathAfterShare :: "graph \<Rightarrow> jsval \<Rightarrow> jsval \<Rightarrow> store_error + nat list" where
  "pathAfterShare g storyId receiverId = path_length_rows g no_filter storyId receiverId"

text \<open>
  The reward: \<^verbatim>\<open>records[0]\<close> of each query, and
  \<^verbatim>\<open>if (before && before.pathLength && after && after.pathLength)\<close>, where a path length
  of 0 is falsy.
\<close>

definition reward :: "nat list \<Rightarrow> nat list \<Rightarrow> int \<times> int" where
  "reward before_rows after_rows =
     (case (before_rows, after_rows) of
        (b # bs, a # as) \<Rightarrow>
          if b \<noteq> 0 \<and> a \<noteq> 0
          then (int b - int a, if int b - int a > 0 then (int b - int a) * 10 else 0)
          else (0, 0)
      | _ \<Rightarrow> (0, 0))"

record share_request =
  storyId :: jsval
  senderId :: jsval
  receiverId :: jsval

record share_response =
  share_of :: share_request
  timestamp :: jsval
  pathReduction :: int
  rewardPoints :: int

text \<open>
  The handler returns the store it leaves behind and either the error passed to
  \<^verbatim>\<open>next\<close> or the body of the response.
\<close>

definition shareStory_handler ::
  "jsval \<Rightarrow> graph \<Rightarrow> share_request \<Rightarrow> graph \<times> (api_error + share_response)" where
  "shareStory_handler now g req =
     (if \<not> truthy (storyId req) \<or> \<not> truthy (senderId req) \<or> \<not> truthy (receiverId req)
      then (g, Inl BadRequest)
      else if match_nodes g ''Story'' (storyId req) = [] then (g, Inl (NotFound ''Story''))
      else if match_nodes g ''User'' (senderId req) = [] then (g, Inl (NotFound ''Sender''))
      else if match_nodes g ''User'' (receiverId req) = [] then (g, Inl (NotFound ''Receiver''))
      else
        (let g' = shareStory now g (storyId req) (senderId req) (receiverId req)
         in case pathBeforeShare g' (storyId req) (receiverId req) of
              Inl e \<Rightarrow> (g', Inl (QueryFailed e))
            | Inr before_rows \<Rightarrow>
                (case pathAfterShare g' (storyId req) (receiverId req) of
                   Inl e \<Rightarrow> (g', Inl (QueryFailed e))
                 | Inr after_rows \<Rightarrow>
                     (g', Inr \<lparr>share_of = req, timestamp = now,
                               pathReduction = fst (reward before_rows after_rows),
                               rewardPoints = snd (reward before_rows after_rows)\<rparr>))))"

subsection \<open>Sample stores\<close>

definition user :: "nat \<Rightarrow> string \<Rightarrow> gnode" where
  "user i uid =
     \<lparr>node_identity = i, node_labels = [''User''],
      node_properties = [(''id'', JStr uid), (''name'', JStr uid)]\<rparr>"

definition story :: "nat \<Rightarrow> string \<Rightarrow> gnode" where
  "story i sid =
     \<lparr>node_identity = i, node_labels = [''Story''],
      node_properties = [(''id'', JStr sid), (''title'', JStr sid)]\<rparr>"

definition rel :: "nat \<Rightarrow> string \<Rightarrow> nat \<Rightarrow> nat \<Rightarrow> (string \<times> jsval) list \<Rightarrow> grel" where
  "rel i t a b props =
     \<lparr>rel_identity = i, rel_type = t, rel_start = a, rel_end = b,
      rel_properties = props\<rparr>"

text \<open>
  Users a (1), b (2), d (3) and story s (4) written by a; a and d, d and b have shared
  another story t with each other.
\<close>

definition shared_graph :: graph where
  "shared_graph =
     \<lparr>graph_nodes = [user 1 ''a'', user 2 ''b'', user 3 ''d'', story 4 ''s''],
      graph_rels = [rel 10 ''AUTHORED'' 1 4 [],
                    rel 11 ''SHARED_WITH'' 1 3 [(''storyId'', JStr ''t'')],
                    rel 12 ''SHARED_WITH'' 3 2 [(''storyId'', JStr ''t'')]],
      forbid_common_nodes = True\<rparr>"

text \<open>Users a (1) and b (2) and story s (4): a wrote it, b shared it; nothing else.\<close>

definition story_only_graph :: graph where
  "story_only_graph =
     \<lparr>graph_nodes = [user 1 ''a'', user 2 ''b'', story 4 ''s''],
      graph_rels = [rel 10 ''AUTHORED'' 1 4 [], rel 11 ''SHARED'' 2 4 []],
      forbid_common_nodes = True\<rparr>"

text \<open>Users a (1) and b (2) who know each other, one KNOWS relationship each way.\<close>

definition mutual_graph :: graph where
  "mutual_graph =
     \<lparr>graph_nodes = [user 1 ''a'', user 2 ''b''],
      graph_rels = [rel 10 ''KNOWS'' 1 2 [], rel 11 ''KNOWS'' 2 1 []],
      forbid_common_nodes = True\<rparr>"

text \<open>The first sample store after story s has been shared from a to b.\<close>

definition reshared_graph :: graph where
  "reshared_graph = shareStory (JStr ''now'') shared_graph (JStr ''s'') (JStr ''a'') (JStr ''b'')"

definition share_a_b :: share_request where
  "share_a_b = \<lparr>storyId = JStr ''s'', senderId = JStr ''a'', receiverId = JStr ''b''\<rparr>"

definition share_b_b :: share_request where
  "share_b_b = \<lparr>storyId = JStr ''s'', senderId = JStr ''b'', receiverId = JStr ''b''\<rparr>"

definition share_b_a :: share_request where
  "share_b_a = \<lparr>storyId = JStr ''s'', senderId = JStr ''b'', receiverId = JStr ''a''\<rparr>"

text \<open>
  Users a (1), b (2), d (3) and story s (4) written by a; a knows d and d knows b (a KNOWS
  relationship carries its creation time and nothing else), and a has shared s with b
  before.
\<close>

definition knows_graph :: graph where
  "knows_graph =
     \<lparr>graph_nodes = [user 1 ''a'', user 2 ''b'', user 3 ''d'', story 4 ''s''],
      graph_rels = [rel 10 ''AUTHORED'' 1 4 [],
                    rel 11 ''KNOWS'' 1 3 [(''createdAt'', JStr ''then'')],
                    rel 12 ''KNOWS'' 3 2 [(''createdAt'', JStr ''then'')],
                    rel 13 ''SHARED'' 1 4 [(''timestamp'', JStr ''then'')],
                    rel 14 ''SHARED_WITH'' 1 2 [(''timestamp'', JStr ''then''), (''storyId'', JStr ''s'')]],
      forbid_common_nodes = True\<rparr>"


subsection \<open>Sample formatter inputs\<close>

text \<open>A segment as \<^verbatim>\<open>executeQuery\<close> shapes it: \<^verbatim>\<open>{ start, relationship, end }\<close>.\<close>

definition segment_of :: "jsval \<Rightarrow> jsval \<Rightarrow> jsval \<Rightarrow> jsval" where
  "segment_of s r e = JObj [(''start'', s), (''relationship'', r), (''end'', e)]"

definition user_node :: "string \<Rightarrow> string \<Rightarrow> jsval" where
  "user_node i n = JObj [(''id'', JStr i), (''name'', JStr n), (''labels'', JArr [JStr ''User''])]"

definition knows_rel :: "string \<Rightarrow> jsval" where
  "knows_rel i =
     JObj [(''id'', JStr i), (''type'', JStr ''KNOWS''),
           (''startNodeId'', JStr ''unknown''), (''endNodeId'', JStr ''unknown'')]"

text \<open>Two segments that both start at node 1, with different \<^verbatim>\<open>name\<close> payloads.\<close>

definition sample_segments :: "jsval list" where
  "sample_segments =
     [segment_of (user_node ''1'' ''Rand'') (knows_rel ''10'') (user_node ''2'' ''Mat''),
      segment_of (user_node ''1'' ''Rand al Thor'') (knows_rel ''11'') (user_node ''3'' ''Perrin'')]"

definition sample_paths :: jsval where
  "sample_paths = JObj [(''paths'', JArr [JObj [(''segments'', JArr sample_segments)]])]"

definition sample_path_data :: jsval where
  "sample_path_data = JObj [(''path'', JObj [(''segments'', JArr sample_segments)]), (''pathLength'', JNum 2)]"



section \<open>Properties\<close>

subsection \<open>Query parameters\<close>

lemma safe_int_minus: "safe_int (- n) = safe_int n"
  by (simp add: safe_int_def)

lemma parse_int_string_cases:
  "parse_int_string s = Some r \<Longrightarrow> r = JNaN \<or> (\<exists>n. safe_int n \<and> r = JNum n)"
  by (auto simp: parse_int_string_def Let_def safe_int_minus split: option.splits if_splits)

lemma parseInt_cases: "parseInt v = Some r \<Longrightarrow> r = JNaN \<or> (\<exists>n. safe_int n \<and> r = JNum n)"
proof (cases v)
  case (JNum n)
  assume "parseInt v = Some r"
  with JNum show ?thesis by (auto simp: parseInt_def split: if_splits)
next
  case JUndefined
  assume "parseInt v = Some r"
  with JUndefined have "parse_int_string (to_string v) = Some r" by (simp add: parseInt_def)
  then show ?thesis by (rule parse_int_string_cases)
next
  case JNull
  assume "parseInt v = Some r"
  with JNull have "parse_int_string (to_string v) = Some r" by (simp add: parseInt_def)
  then show ?thesis by (rule parse_int_string_cases)
next
  case (JBool b)
  assume "parseInt v = Some r"
  with JBool have "parse_int_string (to_string v) = Some r" by (simp add: parseInt_def)
  then show ?thesis by (rule parse_int_string_cases)
next
  case JNaN
  assume "parseInt v = Some r"
  with JNaN have "parse_int_string (to_string v) = Some r" by (simp add: parseInt_def)
  then show ?thesis by (rule parse_int_string_cases)
next
  case (JStr x)
  assume "parseInt v = Some r"
  with JStr have "parse_int_string (to_string v) = Some r" by (simp add: parseInt_def)
  then show ?thesis by (rule parse_int_string_cases)
next
  case (JArr xs)
  assume "parseInt v = Some r"
  with JArr have "parse_int_string (to_string v) = Some r"
    by (simp add: parseInt_def split: if_splits)
  then show ?thesis by (rule parse_int_string_cases)
next
  case (JObj kvs)
  assume "parseInt v = Some r"
  with JObj have "parse_int_string (to_string v) = Some r" by (simp add: parseInt_def)
  then show ?thesis by (rule parse_int_string_cases)
qed

lemma parseInt_safe: "safe_int n \<Longrightarrow> parseInt (JNum n) = Some (JNum n)"
  by (simp add: parseInt_def)

lemma parseInt_nan: "parseInt JNaN = Some JNaN"
  by (simp add: parseInt_def parse_int_string_def parse_magnitude_def digit_val_def is_space_def)

text \<open>
  Where the model stops: \<^verbatim>\<open>1e21\<close> prints as \<^verbatim>\<open>1e+21\<close>, which \<^verbatim>\<open>parseInt\<close> reads as 1, and
  the digits of \<open>2^53 + 1\<close> are read as the double \<open>2^53\<close>.
\<close>

lemma parseInt_not_followed:
  "parseInt (JNum (10 ^ 21)) = None \<and> parseInt (JStr ''9007199254740993'') = None
   \<and> parseInt (JStr ''9007199254740991'') = Some (JNum 9007199254740991)
   \<and> getStories_params (JNum 0) (JNum (10 ^ 21)) = None"
  by code_simp

lemma js_or_num: "js_or (JNum n) (JNum d) = JNum (if n = 0 then d else n)"
  by (simp add: js_or_def)

lemma js_or_nan: "js_or JNaN v = v"
  by (simp add: js_or_def)

lemma process_skip:
  "process_param (''skip'', v) = map_option (\<lambda>n. (''skip'', js_or n (JNum 0))) (parseInt v)"
  by (simp add: process_param_def)

lemma process_limit:
  "process_param (''limit'', v) = map_option (\<lambda>n. (''limit'', js_or n (JNum 0))) (parseInt v)"
  by (simp add: process_param_def)

lemma processed_skip_limit:
  assumes "s = JNaN \<or> (\<exists>n. safe_int n \<and> s = JNum n)"
    and "l = JNaN \<or> (\<exists>n. safe_int n \<and> l = JNum n)"
  shows "processedParams [(''skip'', s), (''limit'', l)] =
           Some [(''skip'', JNum (case s of JNum n \<Rightarrow> n | _ \<Rightarrow> 0)),
                 (''limit'', JNum (case l of JNum n \<Rightarrow> n | _ \<Rightarrow> 0))]"
  using assms
  by (auto simp: processedParams_def process_skip process_limit parseInt_safe parseInt_nan
                 js_or_num js_or_nan)

text \<open>
  Claim C3, as the code has it. Where \<^verbatim>\<open>parseInt\<close> reads the two arguments (after the
  defaults 0 and 50 for an argument left out) as \<^verbatim>\<open>NaN\<close> or as an integer below \<open>2^53\<close>
  in magnitude, the values of \<^verbatim>\<open>skip\<close> and \<^verbatim>\<open>limit\<close> that reach the store are integers.
  For \<^verbatim>\<open>getUsers\<close> a value read as \<^verbatim>\<open>NaN\<close> becomes 0; for \<^verbatim>\<open>getStories\<close> such a
  \<^verbatim>\<open>skip\<close> becomes 0 and such a \<^verbatim>\<open>limit\<close> (or a \<^verbatim>\<open>limit\<close> of 0) becomes 50. An integer
  that \<^verbatim>\<open>parseInt\<close> reads is passed on as it is, a negative one included: nothing clamps
  it; and an argument that is itself an integer below \<open>2^53\<close> in magnitude is read as
  that integer.
\<close>

theorem pagination_parameters:
  assumes "parseInt (default_arg skip (JNum 0)) = Some s"
    and "parseInt (default_arg limit (JNum 50)) = Some l"
  shows "getUsers_params skip limit =
           Some [(''skip'', JNum (case s of JNum n \<Rightarrow> n | _ \<Rightarrow> 0)),
                 (''limit'', JNum (case l of JNum n \<Rightarrow> n | _ \<Rightarrow> 0))]
       \<and> getStories_params skip limit =
           Some [(''skip'', JNum (case s of JNum n \<Rightarrow> n | _ \<Rightarrow> 0)),
                 (''limit'', JNum (case l of JNum n \<Rightarrow> (if n = 0 then 50 else n) | _ \<Rightarrow> 50))]
       \<and> (s = JNaN \<or> (\<exists>n. safe_int n \<and> s = JNum n))
       \<and> (l = JNaN \<or> (\<exists>n. safe_int n \<and> l = JNum n))
       \<and> (\<forall>n. safe_int n \<longrightarrow> parseInt (JNum n) = Some (JNum n))"
proof -
  from assms(1) have sc: "s = JNaN \<or> (\<exists>n. safe_int n \<and> s = JNum n)" by (rule parseInt_cases)
  from assms(2) have lc: "l = JNaN \<or> (\<exists>n. safe_int n \<and> l = JNum n)" by (rule parseInt_cases)
  have u: "getUsers_params skip limit =
           Some [(''skip'', JNum (case s of JNum n \<Rightarrow> n | _ \<Rightarrow> 0)),
                 (''limit'', JNum (case l of JNum n \<Rightarrow> n | _ \<Rightarrow> 0))]"
    unfolding getUsers_params_def assms using processed_skip_limit [OF sc lc] by simp
  let ?s = "js_or s (JNum 0)" and ?l = "js_or l (JNum 50)"
  from sc have sc': "?s = JNaN \<or> (\<exists>n. safe_int n \<and> ?s = JNum n)"
    by (auto simp: js_or_def safe_int_def)
  from lc have lc': "?l = JNaN \<or> (\<exists>n. safe_int n \<and> ?l = JNum n)"
    by (auto simp: js_or_def safe_int_def)
  from sc have sv: "(case ?s of JNum n \<Rightarrow> n | _ \<Rightarrow> 0) = (case s of JNum n \<Rightarrow> n | _ \<Rightarrow> 0)"
    by (auto simp: js_or_def)
  from lc have lv: "(case ?l of JNum n \<Rightarrow> n | _ \<Rightarrow> 0) =
      (case l of JNum n \<Rightarrow> (if n = 0 then 50 else n) | _ \<Rightarrow> 50)"
    by (auto simp: js_or_def)
  have t: "getStories_params skip limit =
           Some [(''skip'', JNum (case s of JNum n \<Rightarrow> n | _ \<Rightarrow> 0)),
                 (''limit'', JNum (case l of JNum n \<Rightarrow> (if n = 0 then 50 else n) | _ \<Rightarrow> 50))]"
    unfolding getStories_params_def assms Let_def
    using processed_skip_limit [OF sc' lc'] by (simp only: option.case sv lv)
  from u t sc lc show ?thesis by (simp add: parseInt_safe)
qed

theorem pagination_parameters_witness:
  "getUsers_params (JStr ''abc'') (JNum (- 3)) = Some [(''skip'', JNum 0), (''limit'', JNum (- 3))]
   \<and> getStories_params (JStr ''abc'') (JNum (- 3)) = Some [(''skip'', JNum 0), (''limit'', JNum (- 3))]
   \<and> getStories_params (JStr [CHR 0xA0, CHR ''7'']) (JStr ''x'') = Some [(''skip'', JNum 7), (''limit'', JNum 50)]"
proof -
  have h1: "parseInt (default_arg (JStr ''abc'') (JNum 0)) = Some JNaN" by code_simp
  have h2: "parseInt (default_arg (JNum (- 3)) (JNum 50)) = Some (JNum (- 3))" by code_simp
  have h3: "parseInt (default_arg (JStr [CHR 0xA0, CHR ''7'']) (JNum 0)) = Some (JNum 7)" by code_simp
  have h4: "parseInt (default_arg (JStr ''x'') (JNum 50)) = Some JNaN" by code_simp
  from pagination_parameters [OF h1 h2] pagination_parameters [OF h3 h4] show ?thesis by simp
qed

text \<open>
  Claim C3 as stated fails: \<^verbatim>\<open>getUsers(-5, 10)\<close> sends \<^verbatim>\<open>skip = -5\<close> to the store, not 0,
  and \<^verbatim>\<open>getStories(-10, 'many')\<close> sends \<^verbatim>\<open>skip = -10\<close> and \<^verbatim>\<open>limit = 50\<close>.
\<close>

theorem negative_skip_reaches_store:
  "getUsers_params (JNum (- 5)) (JNum 10) = Some [(''skip'', JNum (- 5)), (''limit'', JNum 10)]
   \<and> getStories_params (JNum (- 10)) (JStr ''many'') =
       Some [(''skip'', JNum (- 10)), (''limit'', JNum 50)]"
  by code_simp

subsection \<open>Idempotence of the formatter\<close>

lemma own_props_truthy: "own_props x \<noteq> [] \<Longrightarrow> truthy x"
  by (cases x) auto

lemma js_get_truthy: "truthy (js_get x k) \<Longrightarrow> truthy x"
proof -
  assume "truthy (js_get x k)"
  then have "own_props x \<noteq> []" by (auto simp: js_get_def split: option.splits)
  then show ?thesis by (rule own_props_truthy)
qed

lemma format_canonical:
  "formatNetworkForD3 rnd c (JObj [(''nodes'', JArr ns), (''links'', JArr ls)]) =
     (JObj [(''nodes'', JArr ns), (''links'', JArr ls)], c)"
  by (simp add: formatNetworkForD3_def js_get_def)

lemma format_shape:
  "\<exists>ns ls. fst (formatNetworkForD3 rnd c x) = x \<and> truthy x \<and> truthy (js_get x ''nodes'') \<and> truthy (js_get x ''links'')
     \<or> fst (formatNetworkForD3 rnd c x) = JObj [(''nodes'', JArr ns), (''links'', JArr ls)]"
  by (auto simp: formatNetworkForD3_def empty_network_def split: prod.splits jsval.splits)

text \<open>
  Claim C8. Formatting the result of \<^verbatim>\<open>formatNetworkForD3\<close> again gives the same value,
  for every input and whatever the random oracle yields in either call; and an input whose
  \<^verbatim>\<open>nodes\<close> and \<^verbatim>\<open>links\<close> fields are present (truthy, as every array is) is returned
  as it is, without drawing from the oracle.
\<close>

theorem formatNetworkForD3_idempotent:
  "fst (formatNetworkForD3 rnd' c' (fst (formatNetworkForD3 rnd c x))) = fst (formatNetworkForD3 rnd c x)
   \<and> (truthy (js_get x ''nodes'') \<and> truthy (js_get x ''links'') \<longrightarrow> formatNetworkForD3 rnd c x = (x, c))"
proof
  from format_shape [of rnd c x] obtain ns ls where
    "fst (formatNetworkForD3 rnd c x) = x \<and> truthy x \<and> truthy (js_get x ''nodes'') \<and> truthy (js_get x ''links'')
     \<or> fst (formatNetworkForD3 rnd c x) = JObj [(''nodes'', JArr ns), (''links'', JArr ls)]" by blast
  then show "fst (formatNetworkForD3 rnd' c' (fst (formatNetworkForD3 rnd c x))) = fst (formatNetworkForD3 rnd c x)"
  proof
    assume a: "fst (formatNetworkForD3 rnd c x) = x \<and> truthy x \<and> truthy (js_get x ''nodes'') \<and> truthy (js_get x ''links'')"
    then have "formatNetworkForD3 rnd' c' x = (x, c')" by (simp add: formatNetworkForD3_def)
    with a show ?thesis by simp
  next
    assume "fst (formatNetworkForD3 rnd c x) = JObj [(''nodes'', JArr ns), (''links'', JArr ls)]"
    then show ?thesis by (simp add: format_canonical)
  qed
next
  show "truthy (js_get x ''nodes'') \<and> truthy (js_get x ''links'') \<longrightarrow> formatNetworkForD3 rnd c x = (x, c)"
    using js_get_truthy [of x "''nodes''"] by (auto simp: formatNetworkForD3_def)
qed

theorem formatNetworkForD3_idempotent_witness:
  "formatNetworkForD3 string_of_nat 0
     (JObj [(''nodes'', JArr [JObj [(''id'', JStr ''1'')]]), (''links'', JArr [])])
   = (JObj [(''nodes'', JArr [JObj [(''id'', JStr ''1'')]]), (''links'', JArr [])], 0)"
  using formatNetworkForD3_idempotent
          [of string_of_nat 0 string_of_nat 0
              "JObj [(''nodes'', JArr [JObj [(''id'', JStr ''1'')]]), (''links'', JArr [])]"]
  by (simp add: js_get_def)

subsection \<open>Objects, spread and the formatter\<close>

lemma string_of_nat_nonempty: "string_of_nat n \<noteq> []"
  by (subst string_of_nat.simps) simp

lemma digit_char_inj: "a < 10 \<Longrightarrow> b < 10 \<Longrightarrow> digit_char a = digit_char b \<Longrightarrow> a = b"
proof -
  assume a: "a < 10" and b: "b < 10" and e: "digit_char a = digit_char b"
  from e have "(of_char (digit_char a) :: nat) = of_char (digit_char b)" by simp
  with a b show "a = b" by (simp add: digit_char_def)
qed

lemma string_of_nat_inj: "string_of_nat n = string_of_nat m \<Longrightarrow> n = m"
proof (induction n arbitrary: m rule: string_of_nat.induct)
  case (1 n)
  show ?case
  proof (cases "n < 10")
    case True
    have m: "m < 10"
    proof (rule ccontr)
      assume "\<not> m < 10"
      then have "string_of_nat m = string_of_nat (m div 10) @ [digit_char (m mod 10)]"
        by (subst string_of_nat.simps) simp
      moreover from True have "string_of_nat n = [digit_char n]"
        by (subst string_of_nat.simps) simp
      ultimately show False using "1.prems" string_of_nat_nonempty [of "m div 10"] by simp
    qed
    from True m "1.prems" show ?thesis
      by (simp add: string_of_nat.simps [of n] string_of_nat.simps [of m] digit_char_inj)
  next
    case False
    then have n: "string_of_nat n = string_of_nat (n div 10) @ [digit_char (n mod 10)]"
      by (subst string_of_nat.simps) simp
    have m: "\<not> m < 10"
    proof
      assume "m < 10"
      then have "string_of_nat m = [digit_char m]" by (subst string_of_nat.simps) simp
      with n "1.prems" show False using string_of_nat_nonempty [of "n div 10"] by simp
    qed
    then have m': "string_of_nat m = string_of_nat (m div 10) @ [digit_char (m mod 10)]"
      by (subst string_of_nat.simps) simp
    from n m' "1.prems" have p: "string_of_nat (n div 10) = string_of_nat (m div 10)"
      and d: "digit_char (n mod 10) = digit_char (m mod 10)" by simp_all
    from "1.IH" [OF False p] have "n div 10 = m div 10" .
    moreover from d have "n mod 10 = m mod 10" by (intro digit_char_inj) simp_all
    ultimately show ?thesis by (metis div_mult_mod_eq)
  qed
qed

lemma indexed_keys: "map fst (indexed i xs) = map string_of_nat [i..<i + length xs]"
  by (induction xs arbitrary: i) (simp_all add: upt_rec)

lemma distinct_indexed: "distinct (map fst (indexed i xs))"
  by (simp add: indexed_keys distinct_map inj_on_def string_of_nat_inj)

lemma distinct_own_props: "distinct (map fst (own_props v))"
  by (cases v) (simp_all add: distinct_indexed comp_def)

lemma map_of_own_props_obj: "map_of (own_props (JObj kvs)) = map_of kvs"
proof
  fix k
  show "map_of (own_props (JObj kvs)) k = map_of kvs k"
  proof (cases "k \<in> set (map fst kvs)")
    case True
    then have "map_of (map (\<lambda>k. (k, the (map_of kvs k))) (remdups (map fst kvs))) k = Some (the (map_of kvs k))"
      by (simp add: map_of_map_restrict)
    moreover from True obtain v where "map_of kvs k = Some v"
      by (metis map_of_eq_None_iff not_Some_eq set_map)
    ultimately show ?thesis by simp
  next
    case False
    then have "map_of kvs k = None" by (simp add: map_of_eq_None_iff)
    moreover from False have "map_of (own_props (JObj kvs)) k = None"
      by (simp add: map_of_eq_None_iff image_iff)
    ultimately show ?thesis by simp
  qed
qed

lemma map_of_obj_set: "map_of (obj_set acc k v) k' = (if k' = k then Some v else map_of acc k')"
  by (induction acc) auto

lemma map_of_spread:
  "map_of (spread acc kvs) k = (case map_of (rev kvs) k of Some v \<Rightarrow> Some v | None \<Rightarrow> map_of acc k)"
  by (induction kvs arbitrary: acc) (auto simp: map_of_obj_set split: option.splits)

lemma map_of_rev_distinct: "distinct (map fst kvs) \<Longrightarrow> map_of (rev kvs) = map_of kvs"
  by (rule map_of_inject_set [THEN iffD2]) (simp_all add: rev_map [symmetric])

lemma js_get_obj: "js_get (JObj kvs) k = (case map_of kvs k of Some x \<Rightarrow> x | None \<Rightarrow> JUndefined)"
  by (simp only: js_get_def map_of_own_props_obj)

lemma has_key_map_of: "has_key v k \<longleftrightarrow> map_of (own_props v) k \<noteq> None"
  by (simp add: has_key_def map_of_eq_None_iff del: own_props.simps)

lemma js_get_spread:
  "js_get (JObj (spread acc (own_props v))) k =
     (if has_key v k then js_get v k else js_get (JObj acc) k)"
proof -
  have r: "map_of (rev (own_props v)) = map_of (own_props v)"
    by (rule map_of_rev_distinct) (rule distinct_own_props)
  have l: "js_get (JObj (spread acc (own_props v))) k =
      (case (case map_of (own_props v) k of Some x \<Rightarrow> Some x | None \<Rightarrow> map_of acc k) of
         Some x \<Rightarrow> x | None \<Rightarrow> JUndefined)"
    by (simp only: js_get_obj map_of_spread r)
  show ?thesis
  proof (cases "map_of (own_props v) k")
    case None
    then have "\<not> has_key v k" by (simp only: has_key_map_of) simp
    with None l show ?thesis by (simp add: js_get_obj del: own_props.simps)
  next
    case (Some x)
    then have "has_key v k" by (simp only: has_key_map_of) simp
    with Some l show ?thesis by (simp add: js_get_def del: own_props.simps)
  qed
qed

lemma node_id_make_node:
  "node_id (make_node k n) = (if has_key n ''id'' then js_get n ''id'' else k)"
  unfolding node_id_def make_node_def js_get_spread by (simp add: js_get_obj)

lemma link_source: "\<not> has_key r ''source'' \<Longrightarrow> js_get (make_link s t i r) ''source'' = s"
  unfolding make_link_def js_get_spread by (simp add: js_get_obj)

lemma link_target: "\<not> has_key r ''target'' \<Longrightarrow> js_get (make_link s t i r) ''target'' = t"
  unfolding make_link_def js_get_spread by (simp add: js_get_obj)

lemma make_node_props: "has_key e p \<Longrightarrow> js_get (make_node k e) p = js_get e p"
  unfolding make_node_def js_get_spread by simp

lemma add_occ_keys: "fst ` set (add_occ m ke) = insert (fst ke) (fst ` set m)"
  by (auto simp: add_occ_def map_put_def map_has_def)

lemma add_occ_distinct:
  "distinct (map fst m) \<Longrightarrow> \<not> by_identity (fst ke) \<Longrightarrow> distinct (map fst (add_occ m ke))"
  by (auto simp: add_occ_def map_put_def map_has_def)

lemma add_occ_map_of:
  assumes "\<not> by_identity (fst ke)"
  shows "map_of (add_occ m ke) k =
     (case map_of m k of Some n \<Rightarrow> Some n
      | None \<Rightarrow> if k = fst ke then Some (make_node k (snd ke)) else None)"
proof (cases "map_has m (fst ke)")
  case True
  then have "map_of m (fst ke) \<noteq> None" by (simp add: map_has_def map_of_eq_None_iff)
  with True show ?thesis by (auto simp: add_occ_def map_put_def split: option.splits)
next
  case False
  with assms have "map_of m (fst ke) = None" by (simp add: map_has_def map_of_eq_None_iff)
  with False show ?thesis
    by (auto simp: add_occ_def map_put_def map_add_Some_iff split: option.splits)
qed

lemma fold_occ_distinct:
  "distinct (map fst m) \<Longrightarrow> \<forall>ke \<in> set occ. \<not> by_identity (fst ke) \<Longrightarrow>
     distinct (map fst (foldl add_occ m occ))"
  by (induction occ arbitrary: m) (simp_all add: add_occ_distinct)

lemma fold_occ_map_of:
  "\<forall>ke \<in> set occ. \<not> by_identity (fst ke) \<Longrightarrow>
   map_of (foldl add_occ m occ) k =
     (case map_of m k of Some n \<Rightarrow> Some n
      | None \<Rightarrow> map_option (make_node k) (map_of occ k))"
proof (induction occ arbitrary: m)
  case Nil
  show ?case by (simp split: option.splits)
next
  case (Cons ke occ)
  from Cons.prems have h: "\<not> by_identity (fst ke)" and t: "\<forall>ke \<in> set occ. \<not> by_identity (fst ke)"
    by simp_all
  show ?case by (simp add: Cons.IH [OF t] add_occ_map_of [OF h] split: option.splits)
qed

lemma fold_occ_nodes:
  assumes "\<forall>ke \<in> set occ. \<not> by_identity (fst ke)"
  shows "set (map snd (foldl add_occ [] occ)) = {make_node k e |k e. map_of occ k = Some e}"
proof -
  let ?m = "foldl add_occ [] occ"
  have d: "distinct (map fst ?m)" using assms by (intro fold_occ_distinct) simp_all
  have "\<And>k n. (k, n) \<in> set ?m \<longleftrightarrow> map_of ?m k = Some n"
    using d by (auto intro: map_of_is_SomeI dest: map_of_SomeD)
  then have "\<And>k n. (k, n) \<in> set ?m \<longleftrightarrow> (\<exists>e. map_of occ k = Some e \<and> n = make_node k e)"
    by (auto simp: fold_occ_map_of [OF assms])
  then have "set ?m = {(k, make_node k e) |k e. map_of occ k = Some e}" by auto
  then have "snd ` set ?m = snd ` {(k, make_node k e) |k e. map_of occ k = Some e}" by simp
  also have "\<dots> = {make_node k e |k e. map_of occ k = Some e}" by force
  finally show ?thesis by simp
qed

lemma fold_occ_keys: "fst ` set (foldl add_occ m occ) = fst ` set m \<union> fst ` set occ"
proof (induction occ arbitrary: m)
  case Nil
  show ?case by simp
next
  case (Cons ke occ)
  have "fst ` set (foldl add_occ m (ke # occ)) = fst ` set (add_occ m ke) \<union> fst ` set occ"
    by (simp add: Cons.IH)
  also have "\<dots> = fst ` set m \<union> fst ` set (ke # occ)" by (simp only: add_occ_keys) auto
  finally show ?case .
qed

lemma fold_occ_length:
  assumes "\<forall>ke \<in> set occ. \<not> by_identity (fst ke)"
  shows "length (foldl add_occ [] occ) = length (remdups (map fst occ))"
proof -
  have d: "distinct (map fst (foldl add_occ [] occ))" using assms by (intro fold_occ_distinct) simp_all
  have "length (foldl add_occ [] occ) = length (map fst (foldl add_occ [] occ))" by simp
  also have "\<dots> = card (set (map fst (foldl add_occ [] occ)))"
    using d by (rule distinct_card [symmetric])
  also have "set (map fst (foldl add_occ [] occ)) = set (map fst occ)"
    using fold_occ_keys [of "[]" occ] by simp
  also have "card (set (map fst occ)) = length (remdups (map fst occ))"
    by (rule length_remdups_card_conv [symmetric])
  finally show ?thesis .
qed

lemma or_random_truthy: "or_random rnd pre v c = (k, c') \<Longrightarrow> truthy v \<Longrightarrow> k = v"
  by (simp add: or_random_def)

lemma or_random_primitive: "or_random rnd pre v c = (k, c') \<Longrightarrow> \<not> by_identity v \<Longrightarrow> \<not> by_identity k"
  by (auto simp: or_random_def split: if_splits)

lemma d3_segment_valid:
  assumes "\<not> invalid_segment seg"
  shows "\<exists>sid eid rid c3.
    d3_segment rnd (m, ls, c) seg =
       (add_occ (add_occ m (sid, js_get seg ''start'')) (eid, js_get seg ''end''),
        ls @ [make_link sid eid rid (js_get seg ''relationship'')], c3)
    \<and> (\<forall>segs. occurrences rnd c (seg # segs) =
       (sid, js_get seg ''start'') # (eid, js_get seg ''end'') # occurrences rnd c3 segs)
    \<and> (truthy (js_get (js_get seg ''start'') ''id'') \<longrightarrow> sid = js_get (js_get seg ''start'') ''id'')
    \<and> (truthy (js_get (js_get seg ''end'') ''id'') \<longrightarrow> eid = js_get (js_get seg ''end'') ''id'')
    \<and> (node_ids_primitive seg \<longrightarrow> \<not> by_identity sid \<and> \<not> by_identity eid)"
proof -
  obtain sid c1 where s: "or_random rnd ''node-'' (js_get (js_get seg ''start'') ''id'') c = (sid, c1)"
    by (cases "or_random rnd ''node-'' (js_get (js_get seg ''start'') ''id'') c")
  obtain eid c2 where e: "or_random rnd ''node-'' (js_get (js_get seg ''end'') ''id'') c1 = (eid, c2)"
    by (cases "or_random rnd ''node-'' (js_get (js_get seg ''end'') ''id'') c1")
  obtain rid c3 where r: "or_random rnd ''rel-'' (js_get (js_get seg ''relationship'') ''id'') c2 = (rid, c3)"
    by (cases "or_random rnd ''rel-'' (js_get (js_get seg ''relationship'') ''id'') c2")
  have 1: "d3_segment rnd (m, ls, c) seg =
       (add_occ (add_occ m (sid, js_get seg ''start'')) (eid, js_get seg ''end''),
        ls @ [make_link sid eid rid (js_get seg ''relationship'')], c3)"
    using assms by (simp add: d3_segment_def add_occ_def Let_def s e r)
  have 2: "\<forall>segs. occurrences rnd c (seg # segs) =
       (sid, js_get seg ''start'') # (eid, js_get seg ''end'') # occurrences rnd c3 segs"
    using assms by (simp add: s e r)
  have 3: "truthy (js_get (js_get seg ''start'') ''id'') \<longrightarrow> sid = js_get (js_get seg ''start'') ''id''"
    using or_random_truthy [OF s] by simp
  have 4: "truthy (js_get (js_get seg ''end'') ''id'') \<longrightarrow> eid = js_get (js_get seg ''end'') ''id''"
    using or_random_truthy [OF e] by simp
  have 5: "node_ids_primitive seg \<longrightarrow> \<not> by_identity sid \<and> \<not> by_identity eid"
    using or_random_primitive [OF s] or_random_primitive [OF e] by (simp add: node_ids_primitive_def)
  from 1 2 3 4 5 show ?thesis by (intro exI conjI)
qed

lemma d3_segment_invalid: "invalid_segment seg \<Longrightarrow> d3_segment rnd (m, ls, c) seg = (m, ls, c)"
  by (simp add: d3_segment_def)

lemma d3_fold_nodes:
  "fst (foldl (d3_segment rnd) (m, ls, c) segs) = foldl add_occ m (occurrences rnd c segs)"
proof (induction segs arbitrary: m ls c)
  case Nil
  show ?case by simp
next
  case (Cons seg segs)
  show ?case
  proof (cases "invalid_segment seg")
    case True
    then have "d3_segment rnd (m, ls, c) seg = (m, ls, c)" by (rule d3_segment_invalid)
    moreover from True have "occurrences rnd c (seg # segs) = occurrences rnd c segs" by simp
    ultimately show ?thesis by (simp only: foldl_Cons Cons.IH)
  next
    case False
    from d3_segment_valid [OF False, of rnd m ls c] obtain sid eid rid c3 where
      st: "d3_segment rnd (m, ls, c) seg =
         (add_occ (add_occ m (sid, js_get seg ''start'')) (eid, js_get seg ''end''),
          ls @ [make_link sid eid rid (js_get seg ''relationship'')], c3)"
      and oc: "\<forall>segs. occurrences rnd c (seg # segs) =
         (sid, js_get seg ''start'') # (eid, js_get seg ''end'') # occurrences rnd c3 segs"
      by (elim exE conjE)
    have "fst (foldl (d3_segment rnd) (m, ls, c) (seg # segs)) =
        fst (foldl (d3_segment rnd) (add_occ (add_occ m (sid, js_get seg ''start'')) (eid, js_get seg ''end''),
          ls @ [make_link sid eid rid (js_get seg ''relationship'')], c3) segs)"
      by (simp only: foldl_Cons st)
    also have "\<dots> = foldl add_occ (add_occ (add_occ m (sid, js_get seg ''start'')) (eid, js_get seg ''end''))
         (occurrences rnd c3 segs)" by (rule Cons.IH)
    also have "\<dots> = foldl add_occ m (occurrences rnd c (seg # segs))"
      using oc by (simp only: foldl_Cons)
    finally show ?thesis .
  qed
qed

lemma occurrences_key:
  "(k, e) \<in> set (occurrences rnd c segs) \<Longrightarrow> truthy (js_get e ''id'') \<Longrightarrow> k = js_get e ''id''"
proof (induction segs arbitrary: c)
  case Nil
  then show ?case by simp
next
  case (Cons seg segs)
  show ?case
  proof (cases "invalid_segment seg")
    case True
    with Cons.prems(1) have "(k, e) \<in> set (occurrences rnd c segs)" by simp
    then show ?thesis using Cons.prems(2) by (rule Cons.IH)
  next
    case False
    from d3_segment_valid [OF False, of rnd "[]" "[]" c] obtain sid eid rid c3 where
      oc: "\<forall>segs. occurrences rnd c (seg # segs) =
         (sid, js_get seg ''start'') # (eid, js_get seg ''end'') # occurrences rnd c3 segs"
      and s: "truthy (js_get (js_get seg ''start'') ''id'') \<longrightarrow> sid = js_get (js_get seg ''start'') ''id''"
      and e: "truthy (js_get (js_get seg ''end'') ''id'') \<longrightarrow> eid = js_get (js_get seg ''end'') ''id''"
      by (elim exE conjE)
    from Cons.prems(1) oc have "(k, e) = (sid, js_get seg ''start'') \<or> (k, e) = (eid, js_get seg ''end'')
        \<or> (k, e) \<in> set (occurrences rnd c3 segs)"
      by (simp only: set_simps insert_iff)
    then show ?thesis
    proof (elim disjE)
      assume "(k, e) = (sid, js_get seg ''start'')"
      then have "k = sid" "e = js_get seg ''start''" by simp_all
      with s Cons.prems(2) show ?thesis by simp
    next
      assume "(k, e) = (eid, js_get seg ''end'')"
      then have "k = eid" "e = js_get seg ''end''" by simp_all
      with e Cons.prems(2) show ?thesis by simp
    next
      assume "(k, e) \<in> set (occurrences rnd c3 segs)"
      then show ?thesis using Cons.prems(2) by (rule Cons.IH)
    qed
  qed
qed

lemma occurrences_node:
  "(k, e) \<in> set (occurrences rnd c segs) \<Longrightarrow>
     \<exists>seg \<in> set segs. \<not> invalid_segment seg \<and> (e = js_get seg ''start'' \<or> e = js_get seg ''end'')"
proof (induction segs arbitrary: c)
  case Nil
  then show ?case by simp
next
  case (Cons seg segs)
  show ?case
  proof (cases "invalid_segment seg")
    case True
    with Cons.prems(1) have "(k, e) \<in> set (occurrences rnd c segs)" by simp
    then have "\<exists>seg \<in> set segs. \<not> invalid_segment seg \<and> (e = js_get seg ''start'' \<or> e = js_get seg ''end'')"
      by (rule Cons.IH)
    then show ?thesis by auto
  next
    case False
    from d3_segment_valid [OF False, of rnd "[]" "[]" c] obtain sid eid rid c3 where
      oc: "\<forall>segs. occurrences rnd c (seg # segs) =
         (sid, js_get seg ''start'') # (eid, js_get seg ''end'') # occurrences rnd c3 segs"
      by (elim exE conjE)
    from Cons.prems(1) oc have "(k, e) = (sid, js_get seg ''start'') \<or> (k, e) = (eid, js_get seg ''end'')
        \<or> (k, e) \<in> set (occurrences rnd c3 segs)"
      by (simp only: set_simps insert_iff)
    then show ?thesis
    proof (elim disjE)
      assume "(k, e) = (sid, js_get seg ''start'')"
      with False show ?thesis by simp
    next
      assume "(k, e) = (eid, js_get seg ''end'')"
      with False show ?thesis by simp
    next
      assume "(k, e) \<in> set (occurrences rnd c3 segs)"
      then have "\<exists>seg \<in> set segs. \<not> invalid_segment seg \<and> (e = js_get seg ''start'' \<or> e = js_get seg ''end'')"
        by (rule Cons.IH)
      then show ?thesis by auto
    qed
  qed
qed

lemma occurrences_primitive:
  "(k, e) \<in> set (occurrences rnd c segs) \<Longrightarrow>
   \<forall>seg \<in> set segs. invalid_segment seg \<or> node_ids_primitive seg \<Longrightarrow> \<not> by_identity k"
proof (induction segs arbitrary: c)
  case Nil
  then show ?case by simp
next
  case (Cons seg segs)
  from Cons.prems(2) have rest: "\<forall>seg \<in> set segs. invalid_segment seg \<or> node_ids_primitive seg"
    by simp
  show ?case
  proof (cases "invalid_segment seg")
    case True
    with Cons.prems(1) have "(k, e) \<in> set (occurrences rnd c segs)" by simp
    then show ?thesis using rest by (rule Cons.IH)
  next
    case False
    with Cons.prems(2) have prim: "node_ids_primitive seg" by simp
    from d3_segment_valid [OF False, of rnd "[]" "[]" c] obtain sid eid rid c3 where
      oc: "\<forall>segs. occurrences rnd c (seg # segs) =
         (sid, js_get seg ''start'') # (eid, js_get seg ''end'') # occurrences rnd c3 segs"
      and p: "node_ids_primitive seg \<longrightarrow> \<not> by_identity sid \<and> \<not> by_identity eid"
      by (elim exE conjE)
    from p prim have ps: "\<not> by_identity sid" and pe: "\<not> by_identity eid" by simp_all
    from Cons.prems(1) oc have "(k, e) = (sid, js_get seg ''start'') \<or> (k, e) = (eid, js_get seg ''end'')
        \<or> (k, e) \<in> set (occurrences rnd c3 segs)"
      by (simp only: set_simps insert_iff)
    then show ?thesis
    proof (elim disjE)
      assume "(k, e) = (sid, js_get seg ''start'')"
      with ps show ?thesis by simp
    next
      assume "(k, e) = (eid, js_get seg ''end'')"
      with pe show ?thesis by simp
    next
      assume "(k, e) \<in> set (occurrences rnd c3 segs)"
      then show ?thesis using rest by (rule Cons.IH)
    qed
  qed
qed

text \<open>On nodes whose id is absent or truthy, the id written to the output node is its key.\<close>

lemma occurrence_node_id:
  assumes "(k, e) \<in> set (occurrences rnd c segs)" and "id_absent_or_truthy e"
  shows "node_id (make_node k e) = k"
proof (cases "has_key e ''id''")
  case True
  with assms(2) have "truthy (js_get e ''id'')" by (simp add: id_absent_or_truthy_def)
  with assms(1) have "k = js_get e ''id''" by (rule occurrences_key)
  with True show ?thesis by (simp add: node_id_make_node)
next
  case False
  then show ?thesis by (simp add: node_id_make_node)
qed

lemma add_occ_entries:
  "(k, n) \<in> set (add_occ m ke) \<Longrightarrow> (k, n) \<in> set m \<or> (k = fst ke \<and> n = make_node k (snd ke))"
  by (auto simp: add_occ_def map_put_def split: if_splits)

lemma fold_occ_entries:
  "(k, n) \<in> set (foldl add_occ m occ) \<Longrightarrow>
     (k, n) \<in> set m \<or> (\<exists>e. (k, e) \<in> set occ \<and> n = make_node k e)"
proof (induction occ arbitrary: m)
  case Nil
  then show ?case by simp
next
  case (Cons ke occ)
  from Cons.prems have "(k, n) \<in> set (foldl add_occ (add_occ m ke) occ)" by simp
  then have "(k, n) \<in> set (add_occ m ke) \<or> (\<exists>e. (k, e) \<in> set occ \<and> n = make_node k e)"
    by (rule Cons.IH)
  then show ?case
  proof
    assume "(k, n) \<in> set (add_occ m ke)"
    then have "(k, n) \<in> set m \<or> (k = fst ke \<and> n = make_node k (snd ke))" by (rule add_occ_entries)
    then show ?thesis by (cases ke) auto
  next
    assume "\<exists>e. (k, e) \<in> set occ \<and> n = make_node k e"
    then show ?thesis by auto
  qed
qed

lemma fold_occ_ids:
  assumes "\<forall>seg \<in> set segs. invalid_segment seg \<or> node_ids_plain seg"
  shows "map node_id (map snd (foldl add_occ [] (occurrences rnd c segs))) =
         map fst (foldl add_occ [] (occurrences rnd c segs))"
proof -
  have "\<And>k n. (k, n) \<in> set (foldl add_occ [] (occurrences rnd c segs)) \<Longrightarrow> node_id n = k"
  proof -
    fix k n
    assume "(k, n) \<in> set (foldl add_occ [] (occurrences rnd c segs))"
    from fold_occ_entries [OF this]
    obtain e where e: "(k, e) \<in> set (occurrences rnd c segs)" and n: "n = make_node k e"
      by auto
    from occurrences_node [OF e] obtain seg where
      "seg \<in> set segs" "\<not> invalid_segment seg" "e = js_get seg ''start'' \<or> e = js_get seg ''end''"
      by blast
    with assms have "id_absent_or_truthy e" by (auto simp: node_ids_plain_def)
    with e n show "node_id n = k" by (simp add: occurrence_node_id)
  qed
  then show ?thesis by (induction "foldl add_occ [] (occurrences rnd c segs)") auto
qed

text \<open>The links: every link's source and target is a key of the node map.\<close>

lemma d3_segment_links:
  assumes "invalid_segment seg \<or> link_ends_plain seg" and "links_keyed m ls"
    and "d3_segment rnd (m, ls, c) seg = (m', ls', c')"
  shows "links_keyed m' ls'"
proof (cases "invalid_segment seg")
  case True
  with assms(3) have "m' = m" "ls' = ls" by (simp_all add: d3_segment_invalid)
  with assms(2) show ?thesis by simp
next
  case False
  with assms(1) have p: "link_ends_plain seg" by simp
  from d3_segment_valid [OF False, of rnd m ls c] obtain sid eid rid c3 where
    st: "d3_segment rnd (m, ls, c) seg =
       (add_occ (add_occ m (sid, js_get seg ''start'')) (eid, js_get seg ''end''),
        ls @ [make_link sid eid rid (js_get seg ''relationship'')], c3)"
    by (elim exE conjE)
  with assms(3) have m': "m' = add_occ (add_occ m (sid, js_get seg ''start'')) (eid, js_get seg ''end'')"
    and ls': "ls' = ls @ [make_link sid eid rid (js_get seg ''relationship'')]" by simp_all
  have keys: "fst ` set m' = insert eid (insert sid (fst ` set m))"
    by (simp only: m' add_occ_keys fst_conv)
  from p have src: "js_get (make_link sid eid rid (js_get seg ''relationship'')) ''source'' = sid"
    and tgt: "js_get (make_link sid eid rid (js_get seg ''relationship'')) ''target'' = eid"
    by (simp_all add: link_ends_plain_def link_source link_target)
  from assms(2) show ?thesis
    unfolding links_keyed_def ls' keys using src tgt by auto
qed

lemma d3_fold_links:
  assumes "\<forall>seg \<in> set segs. invalid_segment seg \<or> link_ends_plain seg" and "links_keyed m ls"
    and "foldl (d3_segment rnd) (m, ls, c) segs = (m', ls', c')"
  shows "links_keyed m' ls'"
  using assms
proof (induction segs arbitrary: m ls c)
  case Nil
  then show ?case by simp
next
  case (Cons seg segs)
  obtain m1 ls1 c1 where st: "d3_segment rnd (m, ls, c) seg = (m1, ls1, c1)"
    by (cases "d3_segment rnd (m, ls, c) seg")
  from Cons.prems(1) have "invalid_segment seg \<or> link_ends_plain seg" by simp
  then have k: "links_keyed m1 ls1" using Cons.prems(2) st by (rule d3_segment_links)
  from Cons.prems(1) have r: "\<forall>seg \<in> set segs. invalid_segment seg \<or> link_ends_plain seg" by simp
  from Cons.prems(3) st have f: "foldl (d3_segment rnd) (m1, ls1, c1) segs = (m', ls', c')" by simp
  from r k f show ?case by (rule Cons.IH)
qed

text \<open>\<^verbatim>\<open>formatPathData\<close> runs the same loop and keeps \<^verbatim>\<open>nodes\<close> equal to the map's values.\<close>

lemma path_segment_d3:
  "path_segment rnd (m, map snd m, ls, c) seg =
     (case d3_segment rnd (m, ls, c) seg of (m', ls', c') \<Rightarrow> (m', map snd m', ls', c'))"
  by (simp add: path_segment_def d3_segment_def Let_def map_put_def map_has_def split: prod.splits)

lemma path_fold_d3:
  "foldl (path_segment rnd) (m, map snd m, ls, c) segs =
     (case foldl (d3_segment rnd) (m, ls, c) segs of (m', ls', c') \<Rightarrow> (m', map snd m', ls', c'))"
proof (induction segs arbitrary: m ls c)
  case Nil
  show ?case by simp
next
  case (Cons seg segs)
  obtain m1 ls1 c1 where st: "d3_segment rnd (m, ls, c) seg = (m1, ls1, c1)"
    by (cases "d3_segment rnd (m, ls, c) seg")
  then have "path_segment rnd (m, map snd m, ls, c) seg = (m1, map snd m1, ls1, c1)"
    by (simp add: path_segment_d3)
  with st show ?case by (simp only: foldl_Cons Cons.IH)
qed

text \<open>The nested loops of \<^verbatim>\<open>formatNetworkForD3\<close> visit the segments of \<open>d3_segments\<close> in order.\<close>

lemma d3_path_fold:
  "d3_path rnd st path =
     foldl (d3_segment rnd) st (if truthy path then elements (js_get path ''segments'') else [])"
  by (cases "js_get path ''segments''") (simp_all add: d3_path_def elements_def)

lemma d3_paths_fold:
  "foldl (d3_path rnd) st paths =
     foldl (d3_segment rnd) st
       (concat (map (\<lambda>path. if truthy path then elements (js_get path ''segments'') else []) paths))"
proof (induction paths arbitrary: st)
  case Nil
  show ?case by simp
next
  case (Cons path paths)
  have "foldl (d3_path rnd) st (path # paths) = foldl (d3_path rnd) (d3_path rnd st path) paths"
    by simp
  also have "\<dots> = foldl (d3_segment rnd) (d3_path rnd st path)
       (concat (map (\<lambda>path. if truthy path then elements (js_get path ''segments'') else []) paths))"
    by (rule Cons.IH)
  also have "d3_path rnd st path =
      foldl (d3_segment rnd) st (if truthy path then elements (js_get path ''segments'') else [])"
    by (rule d3_path_fold)
  finally show ?case by (simp only: list.map concat.simps foldl_append)
qed

lemma js_get_falsy: "\<not> truthy v \<Longrightarrow> js_get v k = JUndefined"
proof -
  assume "\<not> truthy v"
  with own_props_truthy [of v] have "own_props v = []" by blast
  then show ?thesis by (simp add: js_get_def)
qed

lemma out_of_network:
  "out_nodes (JObj ((''nodes'', JArr ns) # (''links'', JArr ls) # rest)) = ns"
  "out_links (JObj ((''nodes'', JArr ns) # (''links'', JArr ls) # rest)) = ls"
  by (simp_all add: out_nodes_def out_links_def elements_def js_get_obj)

lemma formatNetworkForD3_loop:
  assumes "\<not> (truthy (js_get data ''nodes'') \<and> truthy (js_get data ''links''))"
  shows "\<exists>m ls c'. foldl (d3_segment rnd) ([], [], c) (d3_segments data) = (m, ls, c')
           \<and> out_nodes (fst (formatNetworkForD3 rnd c data)) = map snd m
           \<and> out_links (fst (formatNetworkForD3 rnd c data)) = ls"
proof (cases "truthy data")
  case False
  then have "js_get data ''paths'' = JUndefined" by (rule js_get_falsy)
  then have "d3_segments data = []" by (simp add: d3_segments_def elements_def)
  moreover from False have "fst (formatNetworkForD3 rnd c data) = empty_network"
    by (simp add: formatNetworkForD3_def)
  ultimately show ?thesis by (simp add: empty_network_def out_of_network)
next
  case True
  obtain m ls c' where f: "foldl (d3_segment rnd) ([], [], c) (d3_segments data) = (m, ls, c')"
    by (cases "foldl (d3_segment rnd) ([], [], c) (d3_segments data)")
  have "(case js_get data ''paths'' of
           JArr paths \<Rightarrow> foldl (d3_path rnd) ([], [], c) paths | _ \<Rightarrow> ([], [], c)) = (m, ls, c')"
    using f by (cases "js_get data ''paths''") (simp_all add: d3_segments_def elements_def d3_paths_fold)
  with True assms have "fst (formatNetworkForD3 rnd c data) =
      JObj [(''nodes'', JArr (map snd m)), (''links'', JArr ls)]"
    by (auto simp: formatNetworkForD3_def)
  with f show ?thesis by (simp add: out_of_network)
qed

lemma formatPathData_loop:
  assumes "formatPathData rnd c pd = Inr (out, c')"
  shows "\<exists>m ls. foldl (d3_segment rnd) ([], [], c) (path_segments pd) = (m, ls, c')
           \<and> out_nodes out = map snd m \<and> out_links out = ls"
proof (cases "\<not> truthy pd \<or> \<not> truthy (js_get pd ''path'')")
  case True
  then have "js_get (js_get pd ''path'') ''segments'' = JUndefined"
    by (auto simp: js_get_falsy)
  then have "path_segments pd = []" by (simp add: path_segments_def elements_def)
  moreover from True assms have "out = JObj [(''nodes'', JArr []), (''links'', JArr []), (''length'', JNum 0)]"
    and "c' = c" by (auto simp: formatPathData_def)
  ultimately show ?thesis by (simp add: out_of_network)
next
  case False
  let ?s = "js_get (js_get pd ''path'') ''segments''"
  from False assms obtain segs where s: "js_or ?s (JArr []) = JArr segs"
    by (cases "js_or ?s (JArr [])") (simp_all add: formatPathData_def)
  have ps: "path_segments pd = segs"
  proof (cases "truthy ?s")
    case True
    with s show ?thesis by (simp add: js_or_def path_segments_def elements_def)
  next
    case False
    with s have "segs = []" by (simp add: js_or_def)
    moreover from False have "\<not> is_array ?s" by (cases ?s) simp_all
    then have "elements ?s = []" by (cases ?s) (simp_all add: elements_def)
    ultimately show ?thesis by (simp add: path_segments_def)
  qed
  obtain m ls c1 where f: "foldl (d3_segment rnd) ([], [], c) segs = (m, ls, c1)"
    by (cases "foldl (d3_segment rnd) ([], [], c) segs")
  have "foldl (path_segment rnd) ([], [], [], c) segs = (m, map snd m, ls, c1)"
    using path_fold_d3 [of rnd "[]" "[]" c segs] f by simp
  with False assms s have "out = JObj [(''nodes'', JArr (map snd m)), (''links'', JArr ls),
       (''length'', js_or (js_get pd ''pathLength'') (JNum (int (length segs))))]" and "c' = c1"
    by (simp_all add: formatPathData_def)
  with f ps show ?thesis by (simp add: out_of_network)
qed

text \<open>What both loops leave behind, stated on the segments they visit.\<close>

lemma loop_nodes:
  assumes "foldl (d3_segment rnd) ([], [], c) segs = (m, ls, c')"
    and "\<forall>seg \<in> set segs. invalid_segment seg \<or> node_ids_primitive seg"
  shows "set (map snd m) = {make_node k e |k e. map_of (occurrences rnd c segs) k = Some e}"
    and "length (map snd m) = length (remdups (map fst (occurrences rnd c segs)))"
    and "(\<forall>seg \<in> set segs. invalid_segment seg \<or> node_ids_plain seg) \<Longrightarrow>
           distinct (map node_id (map snd m))"
proof -
  from assms(1) have m: "m = foldl add_occ [] (occurrences rnd c segs)"
    using d3_fold_nodes [of rnd "[]" "[]" c segs] by simp
  have prim: "\<forall>ke \<in> set (occurrences rnd c segs). \<not> by_identity (fst ke)"
    using occurrences_primitive [OF _ assms(2)] by auto
  show "set (map snd m) = {make_node k e |k e. map_of (occurrences rnd c segs) k = Some e}"
    unfolding m using prim by (rule fold_occ_nodes)
  show "length (map snd m) = length (remdups (map fst (occurrences rnd c segs)))"
    unfolding m using prim by (simp add: fold_occ_length)
  assume p: "\<forall>seg \<in> set segs. invalid_segment seg \<or> node_ids_plain seg"
  have "distinct (map fst m)" unfolding m using prim by (intro fold_occ_distinct) simp_all
  moreover have e: "map node_id (map snd m) = map fst m" unfolding m using p by (rule fold_occ_ids)
  ultimately show "distinct (map node_id (map snd m))" by (simp only:)
qed

lemma loop_links:
  assumes "foldl (d3_segment rnd) ([], [], c) segs = (m, ls, c')"
    and "\<forall>seg \<in> set segs. invalid_segment seg \<or> (node_ids_plain seg \<and> link_ends_plain seg)"
  shows "\<forall>l \<in> set ls. js_get l ''source'' \<in> set (map node_id (map snd m))
                      \<and> js_get l ''target'' \<in> set (map node_id (map snd m))"
proof -
  from assms(2) have a: "\<forall>seg \<in> set segs. invalid_segment seg \<or> link_ends_plain seg"
    and b: "\<forall>seg \<in> set segs. invalid_segment seg \<or> node_ids_plain seg" by auto
  have "links_keyed [] []" by (simp add: links_keyed_def)
  with a have "links_keyed m ls" using assms(1) by (rule d3_fold_links)
  moreover from assms(1) have m: "m = foldl add_occ [] (occurrences rnd c segs)"
    using d3_fold_nodes [of rnd "[]" "[]" c segs] by simp
  have "map node_id (map snd m) = map fst m" unfolding m using b by (rule fold_occ_ids)
  ultimately show ?thesis by (simp add: links_keyed_def)
qed

subsection \<open>Deduplication of nodes, and links that do not dangle\<close>

text \<open>
  What the two formatters do on the objects that leave the computed fields alone. On
  input that is not already canonical and whose node ids are strings, numbers or absent,
  the output nodes of \<^verbatim>\<open>formatNetworkForD3\<close>, and of \<^verbatim>\<open>formatPathData\<close> when it returns,
  are exactly the nodes built from the first occurrence of each key (\<open>map_of\<close> finds the
  first binding), one node for each key, and such a node has every property of that
  occurrence (\<open>make_node_props\<close>); when moreover every \<^verbatim>\<open>id\<close> is absent or truthy, the
  \<^verbatim>\<open>id\<close> fields of the output nodes are pairwise distinct.
\<close>

lemma node_deduplication:
  assumes "\<not> (truthy (js_get data ''nodes'') \<and> truthy (js_get data ''links''))"
    and "\<forall>seg \<in> set (d3_segments data). invalid_segment seg \<or> node_ids_primitive seg"
    and "formatPathData rnd c pd = Inr (out, c')"
    and "\<forall>seg \<in> set (path_segments pd). invalid_segment seg \<or> node_ids_primitive seg"
  shows "set (out_nodes (fst (formatNetworkForD3 rnd c data))) =
           {make_node k e |k e. map_of (occurrences rnd c (d3_segments data)) k = Some e}
       \<and> length (out_nodes (fst (formatNetworkForD3 rnd c data))) =
           length (remdups (map fst (occurrences rnd c (d3_segments data))))
       \<and> ((\<forall>seg \<in> set (d3_segments data). invalid_segment seg \<or> node_ids_plain seg) \<longrightarrow>
             distinct (map node_id (out_nodes (fst (formatNetworkForD3 rnd c data)))))
       \<and> set (out_nodes out) =
           {make_node k e |k e. map_of (occurrences rnd c (path_segments pd)) k = Some e}
       \<and> length (out_nodes out) = length (remdups (map fst (occurrences rnd c (path_segments pd))))
       \<and> ((\<forall>seg \<in> set (path_segments pd). invalid_segment seg \<or> node_ids_plain seg) \<longrightarrow>
             distinct (map node_id (out_nodes out)))"
proof -
  from formatNetworkForD3_loop [OF assms(1), of rnd c] obtain m ls c1 where
    f: "foldl (d3_segment rnd) ([], [], c) (d3_segments data) = (m, ls, c1)"
    and n: "out_nodes (fst (formatNetworkForD3 rnd c data)) = map snd m"
    by (elim exE conjE)
  from formatPathData_loop [OF assms(3)] obtain m' ls' where
    f': "foldl (d3_segment rnd) ([], [], c) (path_segments pd) = (m', ls', c')"
    and n': "out_nodes out = map snd m'"
    by (elim exE conjE)
  show ?thesis
    unfolding n n' using loop_nodes [OF f assms(2)] loop_nodes [OF f' assms(4)] by blast
qed

text \<open>
  The sample with two segments that start at node 1 under different names: one node 1
  comes out, with the name of the first.
\<close>

lemma node_deduplication_sample:
  "map (\<lambda>n. (node_id n, js_get n ''name'')) (out_nodes (fst (formatNetworkForD3 string_of_nat 0 sample_paths)))
     = [(JStr ''1'', JStr ''Rand''), (JStr ''2'', JStr ''Mat''), (JStr ''3'', JStr ''Perrin'')]"
  by code_simp


text \<open>
  When every node on a visited segment has an \<^verbatim>\<open>id\<close> that is absent or truthy and no
  relationship has a property called \<^verbatim>\<open>source\<close> or \<^verbatim>\<open>target\<close>, every link's \<^verbatim>\<open>source\<close>
  and \<^verbatim>\<open>target\<close> is the \<^verbatim>\<open>id\<close> of an output node, in \<^verbatim>\<open>formatNetworkForD3\<close> on input
  that is not already canonical and in \<^verbatim>\<open>formatPathData\<close> when it returns.
\<close>

lemma no_dangling_links:
  assumes "\<not> (truthy (js_get data ''nodes'') \<and> truthy (js_get data ''links''))"
    and "\<forall>seg \<in> set (d3_segments data).
           invalid_segment seg \<or> (node_ids_plain seg \<and> link_ends_plain seg)"
    and "formatPathData rnd c pd = Inr (out, c')"
    and "\<forall>seg \<in> set (path_segments pd).
           invalid_segment seg \<or> (node_ids_plain seg \<and> link_ends_plain seg)"
  shows "(\<forall>l \<in> set (out_links (fst (formatNetworkForD3 rnd c data))).
            js_get l ''source'' \<in> set (map node_id (out_nodes (fst (formatNetworkForD3 rnd c data))))
          \<and> js_get l ''target'' \<in> set (map node_id (out_nodes (fst (formatNetworkForD3 rnd c data)))))
       \<and> (\<forall>l \<in> set (out_links out).
            js_get l ''source'' \<in> set (map node_id (out_nodes out))
          \<and> js_get l ''target'' \<in> set (map node_id (out_nodes out)))"
proof -
  from formatNetworkForD3_loop [OF assms(1), of rnd c] obtain m ls c1 where
    f: "foldl (d3_segment rnd) ([], [], c) (d3_segments data) = (m, ls, c1)"
    and n: "out_nodes (fst (formatNetworkForD3 rnd c data)) = map snd m"
    and l: "out_links (fst (formatNetworkForD3 rnd c data)) = ls"
    by (elim exE conjE)
  from formatPathData_loop [OF assms(3)] obtain m' ls' where
    f': "foldl (d3_segment rnd) ([], [], c) (path_segments pd) = (m', ls', c')"
    and n': "out_nodes out = map snd m'" and l': "out_links out = ls'"
    by (elim exE conjE)
  show ?thesis
    unfolding n n' l l' using loop_links [OF f assms(2)] loop_links [OF f' assms(4)] by (rule conjI)
qed



subsection \<open>Shortest paths\<close>

lemma steps_length: "q \<in> set (steps g ok src p) \<Longrightarrow> length q = Suc (length p)"
  by (auto simp: steps_def)

lemma trails_length: "p \<in> set (trails g ok src k) \<Longrightarrow> length p = k"
proof (induction k arbitrary: p)
  case 0
  then show ?case by simp
next
  case (Suc k)
  then obtain q where "q \<in> set (trails g ok src k)" "p \<in> set (steps g ok src q)" by auto
  with Suc.IH show ?case by (simp add: steps_length)
qed

lemma steps_ok:
  "q \<in> set (steps g ok src p) \<Longrightarrow> \<forall>s \<in> set p. ok (seg_rel s) \<Longrightarrow> \<forall>s \<in> set q. ok (seg_rel s)"
  by (auto simp: steps_def seg_rel_def)

lemma trails_ok: "p \<in> set (trails g ok src k) \<Longrightarrow> \<forall>s \<in> set p. ok (seg_rel s)"
proof (induction k arbitrary: p)
  case 0
  then show ?case by simp
next
  case (Suc k)
  then obtain q where q: "q \<in> set (trails g ok src k)" and p: "p \<in> set (steps g ok src q)" by auto
  from Suc.IH [OF q] have "\<forall>s \<in> set q. ok (seg_rel s)" .
  with p show ?case by (rule steps_ok)
qed

lemma concat_upt_first:
  "concat (map f [i..<n]) = x # xs \<Longrightarrow>
     \<exists>k. i \<le> k \<and> k < n \<and> x \<in> set (f k) \<and> (\<forall>j. i \<le> j \<and> j < k \<longrightarrow> f j = [])"
proof (induction "n - i" arbitrary: i)
  case 0
  then show ?case by simp
next
  case (Suc d)
  then have lt: "i < n" by simp
  then have c: "concat (map f [i..<n]) = f i @ concat (map f [Suc i..<n])"
    by (simp add: upt_conv_Cons)
  show ?case
  proof (cases "f i")
    case Nil
    with c Suc.prems have "concat (map f [Suc i..<n]) = x # xs" by simp
    moreover from Suc.hyps(2) have "d = n - Suc i" by simp
    ultimately obtain k where "Suc i \<le> k" "k < n" "x \<in> set (f k)"
      "\<forall>j. Suc i \<le> j \<and> j < k \<longrightarrow> f j = []"
      using Suc.hyps(1) by blast
    with Nil have "i \<le> k \<and> k < n \<and> x \<in> set (f k) \<and> (\<forall>j. i \<le> j \<and> j < k \<longrightarrow> f j = [])"
      by (metis Suc_leD Suc_leI le_neq_implies_less)
    then show ?thesis by blast
  next
    case (Cons y ys)
    with c Suc.prems have "x = y" by simp
    with Cons lt show ?thesis by (intro exI [of _ i]) auto
  qed
qed

lemma shortest_path_Some:
  assumes "shortest_path g ok pred src tgt = Some p"
  shows "\<exists>k. 1 \<le> k \<and> k \<le> length (graph_rels g) \<and> p \<in> set (hits g ok pred src tgt k)
           \<and> (\<forall>j. 1 \<le> j \<and> j < k \<longrightarrow> hits g ok pred src tgt j = [])"
proof -
  from assms obtain ps where
    "concat (map (hits g ok pred src tgt) [1..<Suc (length (graph_rels g))]) = p # ps"
    by (auto simp: shortest_path_def split: list.splits)
  from concat_upt_first [OF this] show ?thesis by auto
qed

lemma shortest_path_None:
  assumes "shortest_path g ok pred src tgt = None" and "1 \<le> k" and "k \<le> length (graph_rels g)"
  shows "hits g ok pred src tgt k = []"
proof -
  from assms(1) have "concat (map (hits g ok pred src tgt) [1..<Suc (length (graph_rels g))]) = []"
    by (auto simp: shortest_path_def split: list.splits)
  with assms(2,3) show ?thesis by auto
qed

lemma hits_length: "p \<in> set (hits g ok pred src tgt k) \<Longrightarrow> length p = k"
  by (auto simp: hits_def trails_length)

lemma shortest_path_nonempty: "shortest_path g ok pred src tgt = Some p \<Longrightarrow> 1 \<le> length p"
  using shortest_path_Some hits_length by blast

lemma shortest_path_ok:
  "shortest_path g ok pred src tgt = Some p \<Longrightarrow> \<forall>s \<in> set p. ok (seg_rel s)"
proof -
  assume "shortest_path g ok pred src tgt = Some p"
  then obtain k where "p \<in> set (hits g ok pred src tgt k)" using shortest_path_Some by blast
  then have "p \<in> set (trails g ok src k)" by (simp add: hits_def)
  then show ?thesis by (rule trails_ok)
qed

lemma shortest_path_mono:
  assumes "shortest_path g ok pred src tgt = Some p" and "\<And>q. pred q \<Longrightarrow> pred' q"
  shows "\<exists>q. shortest_path g ok pred' src tgt = Some q \<and> length q \<le> length p"
proof -
  from shortest_path_Some [OF assms(1)] obtain k where
    k: "1 \<le> k" "k \<le> length (graph_rels g)" and p: "p \<in> set (hits g ok pred src tgt k)" by blast
  from p assms(2) have p': "p \<in> set (hits g ok pred' src tgt k)" by (auto simp: hits_def)
  show ?thesis
  proof (cases "shortest_path g ok pred' src tgt")
    case None
    from shortest_path_None [OF None k] p' show ?thesis by simp
  next
    case (Some q)
    from shortest_path_Some [OF Some] obtain k' where
      q: "q \<in> set (hits g ok pred' src tgt k')"
      and first: "\<forall>j. 1 \<le> j \<and> j < k' \<longrightarrow> hits g ok pred' src tgt j = []" by blast
    have "k' \<le> k"
    proof (rule ccontr)
      assume "\<not> k' \<le> k"
      with k(1) first have "hits g ok pred' src tgt k = []" by simp
      with p' show False by simp
    qed
    moreover from q have "length q = k'" by (rule hits_length)
    moreover from p have "length p = k" by (rule hits_length)
    ultimately show ?thesis using Some by simp
  qed
qed

subsection \<open>The share handler and findShortestPath\<close>

text \<open>
  Claim C4, as the code has it. The shortest path of the two queries of the share
  handler, whose pattern is \<^verbatim>\<open>[r:KNOWS|SHARED_WITH*]\<close>, walks only KNOWS and SHARED_WITH
  relationships (in either direction), with or without the exclusion filter.
  \<^verbatim>\<open>findShortestPath\<close> has the pattern \<^verbatim>\<open>[*]\<close> and walks relationships of every type.
\<close>

theorem reward_paths_use_knows_and_shared_with:
  assumes "shortest_path g knows_or_shared_with pred a b = Some p"
  shows "\<forall>s \<in> set p. rel_type (seg_rel s) = ''KNOWS'' \<or> rel_type (seg_rel s) = ''SHARED_WITH''"
  using shortest_path_ok [OF assms] by (simp add: knows_or_shared_with_def)

theorem reward_paths_use_knows_and_shared_with_witness:
  "shortest_path reshared_graph knows_or_shared_with (none_tagged (JStr ''s'')) 1 2 =
     Some [(1, rel 11 ''SHARED_WITH'' 1 3 [(''storyId'', JStr ''t'')], 3),
           (3, rel 12 ''SHARED_WITH'' 3 2 [(''storyId'', JStr ''t'')], 2)]
   \<and> set (map (\<lambda>s. rel_type (seg_rel s))
        (the (shortest_path reshared_graph knows_or_shared_with (none_tagged (JStr ''s'')) 1 2)))
      \<subseteq> {''KNOWS'', ''SHARED_WITH''}"
proof -
  have h: "shortest_path reshared_graph knows_or_shared_with (none_tagged (JStr ''s'')) 1 2 =
     Some [(1, rel 11 ''SHARED_WITH'' 1 3 [(''storyId'', JStr ''t'')], 3),
           (3, rel 12 ''SHARED_WITH'' 3 2 [(''storyId'', JStr ''t'')], 2)]"
    by code_simp
  from reward_paths_use_knows_and_shared_with [OF h] h show ?thesis by auto
qed

text \<open>
  Claim C4 as stated fails for \<^verbatim>\<open>findShortestPath\<close>: between the author of a story and
  a user who shared it, with no other relationship in the store, it returns the path
  through the story, over an AUTHORED and a SHARED relationship.
\<close>

theorem findShortestPath_crosses_story:
  "(case findShortestPath string_of_nat 0 story_only_graph (JStr ''a'') (JStr ''b'') of
      Inl e \<Rightarrow> False
    | Inr (r, c) \<Rightarrow>
        map (\<lambda>s. js_get (js_get s ''relationship'') ''type'')
            (elements (js_get (js_get r ''path'') ''segments''))
        = [JStr ''AUTHORED'', JStr ''SHARED''])"
  by code_simp

text \<open>
  Claim C6. For every store, every pair of nodes and every exclusion tag: when the
  shortest path that avoids the relationships excluded for the tag exists, the
  unrestricted shortest path between the same pair exists and is not longer.
\<close>

theorem exclusion_never_shortens:
  assumes "shortest_path g knows_or_shared_with (none_tagged tag) a b = Some p"
  shows "\<exists>q. shortest_path g knows_or_shared_with no_filter a b = Some q \<and> length q \<le> length p"
  using assms by (rule shortest_path_mono) (simp add: no_filter_def)

theorem exclusion_never_shortens_witness:
  "length (the (shortest_path reshared_graph knows_or_shared_with (none_tagged (JStr ''s'')) 1 2)) = 2
   \<and> (\<exists>q. shortest_path reshared_graph knows_or_shared_with no_filter 1 2 = Some q \<and> length q \<le> 2)"
proof -
  have h: "shortest_path reshared_graph knows_or_shared_with (none_tagged (JStr ''s'')) 1 2 =
     Some [(1, rel 11 ''SHARED_WITH'' 1 3 [(''storyId'', JStr ''t'')], 3),
           (3, rel 12 ''SHARED_WITH'' 3 2 [(''storyId'', JStr ''t'')], 2)]"
    by code_simp
  from exclusion_never_shortens [OF h] obtain q where
    q: "shortest_path reshared_graph knows_or_shared_with no_filter 1 2 = Some q"
    and l: "length q \<le> length [(1 :: nat, rel 11 ''SHARED_WITH'' 1 3 [(''storyId'', JStr ''t'')], 3 :: nat),
           (3, rel 12 ''SHARED_WITH'' 3 2 [(''storyId'', JStr ''t'')], 2)]"
    by blast
  from l have "length q \<le> 2" by simp
  with q have "\<exists>q. shortest_path reshared_graph knows_or_shared_with no_filter 1 2 = Some q \<and> length q \<le> 2"
    by blast
  moreover from h have "length (the (shortest_path reshared_graph knows_or_shared_with
      (none_tagged (JStr ''s'')) 1 2)) = 2" by simp
  ultimately show ?thesis by (rule conjI [rotated])
qed

text \<open>
  Claim C5, as the code has it. For a user A that one node of the store stands for,
  \<^verbatim>\<open>findShortestPath(A, A)\<close> never returns a path: where the store forbids
  \<^verbatim>\<open>shortestPath\<close> between a node and itself (the default) the query fails and the service
  raises the error; otherwise there is no record and the result is \<^verbatim>\<open>undefined\<close>.
\<close>

theorem self_path:
  assumes "match_nodes g ''User'' a = [n]"
  shows "findShortestPath rnd c g a a =
           (if forbid_common_nodes g then Inl (QueryFailed CommonNodes) else Inr (JUndefined, c))"
  using assms
  by (simp add: findShortestPath_def findShortestPath_rows_def shortestPath_call_def)

theorem self_path_witness:
  "findShortestPath string_of_nat 0 (story_only_graph\<lparr>forbid_common_nodes := False\<rparr>)
     (JStr ''a'') (JStr ''a'') = Inr (JUndefined, 0)"
proof -
  have h: "match_nodes (story_only_graph\<lparr>forbid_common_nodes := False\<rparr>) ''User'' (JStr ''a'')
      = [user 1 ''a'']" by code_simp
  have f: "forbid_common_nodes (story_only_graph\<lparr>forbid_common_nodes := False\<rparr>) = False"
    by simp
  from self_path [OF h, of string_of_nat 0] f show ?thesis by simp
qed

text \<open>
  Claim C5 as stated fails: on a store with the default setting, \<^verbatim>\<open>findShortestPath\<close>
  from user a to user a raises an error instead of returning a path of length 0.
\<close>

theorem self_path_fails:
  "match_nodes story_only_graph ''User'' (JStr ''a'') = [user 1 ''a'']
   \<and> findShortestPath string_of_nat 0 story_only_graph (JStr ''a'') (JStr ''a'')
       = Inl (QueryFailed CommonNodes)"
  by code_simp

lemma collect_rows_all:
  "collect_rows f xs = Inr rs \<Longrightarrow> y \<in> set rs \<Longrightarrow> \<exists>x \<in> set xs. f x = Inr (Some y)"
proof (induction xs arbitrary: rs)
  case Nil
  then show ?case by simp
next
  case (Cons x xs)
  from Cons.prems(1) obtain r rs' where fx: "f x = Inr r" and rest: "collect_rows f xs = Inr rs'"
    and rs: "rs = (case r of None \<Rightarrow> rs' | Some y \<Rightarrow> y # rs')"
    by (auto split: sum.splits)
  show ?case
  proof (cases "y \<in> set rs'")
    case True
    from Cons.IH [OF rest True] show ?thesis by auto
  next
    case False
    with rs Cons.prems(2) have "r = Some y" by (cases r) auto
    with fx show ?thesis by auto
  qed
qed

lemma path_length_rows_positive:
  assumes "path_length_rows g pred sid rid = Inr rs" and "n \<in> set rs"
  shows "n \<noteq> 0"
proof -
  from collect_rows_all [OF assms [unfolded path_length_rows_def]] obtain ab where
    "map_sum id (map_option length) (shortestPath_call g knows_or_shared_with pred ab) = Inr (Some n)"
    by blast
  then obtain p where "shortestPath_call g knows_or_shared_with pred ab = Inr (Some p)" "n = length p"
    by (cases "shortestPath_call g knows_or_shared_with pred ab") auto
  then have "shortest_path g knows_or_shared_with pred (node_identity (fst ab)) (node_identity (snd ab)) = Some p"
    by (auto simp: shortestPath_call_def split: if_splits)
  from shortest_path_nonempty [OF this] \<open>n = length p\<close> show ?thesis by arith
qed

lemma reward_positive_rows:
  assumes "\<forall>n \<in> set bs. n \<noteq> 0" and "\<forall>n \<in> set as. n \<noteq> 0"
  shows "(case (bs, as) of
            (b # bs', a # as') \<Rightarrow>
              fst (reward bs as) = int b - int a \<and> snd (reward bs as) = 10 * max 0 (int b - int a)
          | _ \<Rightarrow> fst (reward bs as) = 0 \<and> snd (reward bs as) = 0)
         \<and> 0 \<le> snd (reward bs as)"
  using assms by (cases bs; cases as) (auto simp: reward_def max_def)

text \<open>
  What the handler computes from the records of its own two queries, whenever it
  answers: the difference of the two path lengths when both queries return a record, 0
  when either returns none, and 10 points for each hop of a positive difference.
\<close>

lemma reward_of_query_rows:
  assumes "shareStory_handler now g req = (g', Inr resp)"
  shows "\<exists>before_rows after_rows.
           pathBeforeShare g' (storyId req) (receiverId req) = Inr before_rows
         \<and> pathAfterShare g' (storyId req) (receiverId req) = Inr after_rows
         \<and> (case (before_rows, after_rows) of
              (b # bs, a # as) \<Rightarrow>
                pathReduction resp = int b - int a
                \<and> rewardPoints resp = 10 * max 0 (int b - int a)
            | _ \<Rightarrow> pathReduction resp = 0 \<and> rewardPoints resp = 0)
         \<and> 0 \<le> rewardPoints resp"
proof -
  let ?g = "shareStory now g (storyId req) (senderId req) (receiverId req)"
  from assms obtain bs as where
    g': "g' = ?g"
    and b: "pathBeforeShare ?g (storyId req) (receiverId req) = Inr bs"
    and a: "pathAfterShare ?g (storyId req) (receiverId req) = Inr as"
    and r: "resp = \<lparr>share_of = req, timestamp = now,
                    pathReduction = fst (reward bs as), rewardPoints = snd (reward bs as)\<rparr>"
    by (auto simp: shareStory_handler_def Let_def split: if_splits sum.splits)
  from b have pb: "\<forall>n \<in> set bs. n \<noteq> 0"
    unfolding pathBeforeShare_def using path_length_rows_positive by blast
  from a have pa: "\<forall>n \<in> set as. n \<noteq> 0"
    unfolding pathAfterShare_def using path_length_rows_positive by blast
  from reward_positive_rows [OF pb pa] b a show ?thesis
    unfolding g' r by (rule_tac x = bs in exI, rule_tac x = as in exI) (simp split: list.splits)
qed

text \<open>
  Claim C2 fails in the code. The store has users a, b, d with a KNOWS d and d KNOWS b,
  story s written by a, and an earlier share of s from a to b; s is shared from a to b
  again. Ignoring the \<^verbatim>\<open>SHARED_WITH\<close> edges tagged s, the shortest path from a to b has
  length 2 (through d), before the share is written and after; the unrestricted one has
  length 1: by the claim \<^verbatim>\<open>pathReduction\<close> is 1 and \<^verbatim>\<open>rewardPoints\<close> is 10. The handler
  answers 0 and 0: its filter \<^verbatim>\<open>NONE(rel IN r WHERE rel.storyId = $storyId)\<close> is \<^verbatim>\<open>null\<close>
  on a path over a KNOWS relationship, which has no \<^verbatim>\<open>storyId\<close>, so the query for the
  path before the share returns no record, although its pattern
  \<^verbatim>\<open>[r:KNOWS|SHARED_WITH*]\<close> asks for such paths and the query after the share finds
  them. And a share of s from b to its author a, a valid call, gets no answer at all:
  both relationships are written, and the path query between a and a fails.
\<close>

theorem reshare_over_knows_unrewarded:
  "(case shareStory_handler (JStr ''now'') knows_graph share_a_b of
      (g', Inl e) \<Rightarrow> False
    | (g', Inr resp) \<Rightarrow>
        pathReduction resp = 0 \<and> rewardPoints resp = 0
        \<and> pathBeforeShare g' (JStr ''s'') (JStr ''b'') = Inr []
        \<and> pathAfterShare g' (JStr ''s'') (JStr ''b'') = Inr [1]
        \<and> map_option length
            (shortest_path knows_graph knows_or_shared_with (spec_excluding_tag (JStr ''s'')) 1 2) = Some 2
        \<and> map_option length
            (shortest_path g' knows_or_shared_with (spec_excluding_tag (JStr ''s'')) 1 2) = Some 2
        \<and> map_option length (shortest_path g' knows_or_shared_with no_filter 1 2) = Some 1)
   \<and> (case shareStory_handler (JStr ''now'') shared_graph share_b_a of
         (g', Inl e) \<Rightarrow>
           e = QueryFailed CommonNodes
           \<and> length (graph_rels g') = length (graph_rels shared_graph) + 2
       | (g', Inr resp) \<Rightarrow> False)"
  by code_simp

theorem reshare_over_knows_unrewarded_witness:
  "\<exists>g' resp. shareStory_handler (JStr ''now'') knows_graph share_a_b = (g', Inr resp)
     \<and> pathReduction resp \<noteq> 1 \<and> rewardPoints resp \<noteq> 10"
  using reshare_over_knows_unrewarded by (auto split: prod.splits sum.splits)

lemma share_rows_self:
  assumes "length (match_nodes g ''User'' uid) \<le> 1"
  shows "share_rows g sid uid uid = []"
proof -
  have "\<And>s. s \<in> set (match_nodes g ''User'' uid) \<Longrightarrow>
      filter (\<lambda>r. node_identity s \<noteq> node_identity r) (match_nodes g ''User'' uid) = []"
  proof -
    fix s assume "s \<in> set (match_nodes g ''User'' uid)"
    with assms have "match_nodes g ''User'' uid = [s]"
      by (cases "match_nodes g ''User'' uid") auto
    then show "filter (\<lambda>r. node_identity s \<noteq> node_identity r) (match_nodes g ''User'' uid) = []"
      by simp
  qed
  then show ?thesis by (simp add: share_rows_def)
qed

text \<open>
  Claim C1, as the code has it. When \<^verbatim>\<open>senderId\<close> equals \<^verbatim>\<open>receiverId\<close> and at most
  one User node has that id (the store's uniqueness constraint), the handler leaves the
  store as it found it: no SHARED and no SHARED_WITH relationship is created.
\<close>

theorem self_share_leaves_store_unchanged:
  assumes "senderId req = receiverId req"
    and "length (match_nodes g ''User'' (senderId req)) \<le> 1"
  shows "fst (shareStory_handler now g req) = g"
proof -
  from assms have "share_rows g (storyId req) (senderId req) (receiverId req) = []"
    by (simp add: share_rows_self)
  then have "shareStory now g (storyId req) (senderId req) (receiverId req) = g"
    by (simp add: shareStory_def)
  then show ?thesis
    by (simp add: shareStory_handler_def Let_def split: sum.splits)
qed

theorem self_share_leaves_store_unchanged_witness:
  "match_nodes shared_graph ''Story'' (storyId share_b_b) = [story 4 ''s'']
   \<and> match_nodes shared_graph ''User'' (senderId share_b_b) = [user 2 ''b'']
   \<and> fst (shareStory_handler (JStr ''now'') shared_graph share_b_b) = shared_graph"
proof -
  have h1: "senderId share_b_b = receiverId share_b_b" by code_simp
  have h2: "length (match_nodes shared_graph ''User'' (senderId share_b_b)) \<le> 1" by code_simp
  have e1: "match_nodes shared_graph ''Story'' (storyId share_b_b) = [story 4 ''s'']" by code_simp
  have e2: "match_nodes shared_graph ''User'' (senderId share_b_b) = [user 2 ''b'']" by code_simp
  from self_share_leaves_store_unchanged [OF h1 h2, of "JStr ''now''"] e1 e2 show ?thesis by simp
qed

text \<open>
  Claim C1 as stated fails: with the story and the user both in the store and
  \<^verbatim>\<open>senderId = receiverId\<close>, the handler raises nothing and answers with the success
  body, with \<^verbatim>\<open>pathReduction\<close> 0 and \<^verbatim>\<open>rewardPoints\<close> 0.
\<close>

theorem self_share_reports_success:
  "match_nodes shared_graph ''Story'' (storyId share_b_b) = [story 4 ''s'']
   \<and> match_nodes shared_graph ''User'' (senderId share_b_b) = [user 2 ''b'']
   \<and> senderId share_b_b = receiverId share_b_b
   \<and> snd (shareStory_handler (JStr ''now'') shared_graph share_b_b) =
       Inr \<lparr>share_of = share_b_b, timestamp = JStr ''now'', pathReduction = 0, rewardPoints = 0\<rparr>"
  by code_simp

subsection \<open>getNetworkData\<close>

lemma shape_list_length: "length (fst (shape_list f c xs)) = length xs"
proof (induction xs arbitrary: c)
  case Nil
  show ?case by simp
next
  case (Cons x xs)
  obtain y c1 where y: "f c x = (y, c1)" by (cases "f c x")
  obtain ys c2 where ys: "shape_list f c1 xs = (ys, c2)" by (cases "shape_list f c1 xs")
  from Cons.IH [of c1] ys have "length ys = length xs" by simp
  with y ys show ?case by simp
qed

lemma network_query_rows:
  assumes "network_query g lim = Inr (us, rs)"
  shows "int (length us) \<le> lim" and "set us \<subseteq> set (filter is_user (graph_nodes g))"
    and "distinct us" and "distinct rs"
    and "set rs = {r \<in> set (graph_rels g). \<exists>u \<in> set us. joins_lower_user g u r}"
proof -
  let ?users = "filter is_user (graph_nodes g)"
  from assms have lim: "0 \<le> lim" and us: "us = remdups (take (nat lim) ?users)"
    and rs: "rs = remdups (concat (map (\<lambda>u. filter (joins_lower_user g u) (graph_rels g))
                                        (take (nat lim) ?users)))"
    by (auto simp: network_query_def split: if_splits)
  have "length us \<le> length (take (nat lim) ?users)" unfolding us by (rule length_remdups_leq)
  also have "\<dots> \<le> nat lim" by simp
  finally show "int (length us) \<le> lim" using lim by simp
  show "set us \<subseteq> set ?users" unfolding us by (auto dest: in_set_takeD)
  show "distinct us" unfolding us by simp
  show "distinct rs" unfolding rs by simp
  show "set rs = {r \<in> set (graph_rels g). \<exists>u \<in> set us. joins_lower_user g u r}"
    unfolding us rs by auto
qed

lemma shape_list_nth:
  "shape_list f c xs = (ys, c') \<Longrightarrow> i < length xs \<Longrightarrow> \<exists>ci. ys ! i = fst (f ci (xs ! i))"
proof (induction xs arbitrary: c c' ys i)
  case Nil
  then show ?case by simp
next
  case (Cons x xs)
  obtain y c1 where y: "f c x = (y, c1)" by (cases "f c x")
  obtain zs c2 where zs: "shape_list f c1 xs = (zs, c2)" by (cases "shape_list f c1 xs")
  from Cons.prems(1) y zs have ys: "ys = y # zs" by simp
  show ?case
  proof (cases i)
    case 0
    with ys y have "ys ! i = fst (f c (( x # xs) ! i))" by simp
    then show ?thesis by blast
  next
    case (Suc j)
    with Cons.prems(2) have j: "j < length xs" by simp
    from zs j have "\<exists>ci. zs ! j = fst (f ci (xs ! j))" by (rule Cons.IH)
    with ys Suc show ?thesis by simp
  qed
qed

lemma literal_after_spread:
  assumes "map_of (rev kvs) k = Some v"
  shows "js_get (JObj (spread acc kvs)) k = v" and "has_key (JObj (spread acc kvs)) k"
  using assms
  by (simp_all add: js_get_obj map_of_spread has_key_map_of map_of_own_props_obj del: own_props.simps)

lemma shaped_node_id:
  assumes "node_identity n \<noteq> 0"
  shows "node_id (network_node (fst (shape_node rnd c n))) = JStr (string_of_nat (node_identity n))"
proof -
  let ?fields = "[(''id'', JStr (string_of_nat (node_identity n))),
                  (''labels'', JArr (map JStr (node_labels n)))]"
  let ?node = "JObj (spread (spread [] (own_props (JObj (node_properties n)))) ?fields)"
  from assms have n: "fst (shape_node rnd c n) = ?node"
    by (simp add: shape_node_def identity_string_def)
  have m: "map_of (rev ?fields) ''id'' = Some (JStr (string_of_nat (node_identity n)))" by simp
  show ?thesis
    unfolding n node_id_def network_node_def js_get_spread
    by (simp only: literal_after_spread [OF m] if_True)
qed

lemma shaped_link:
  shows "rel_identity r \<noteq> 0 \<Longrightarrow>
           js_get (network_link (fst (shape_rel rnd c r))) ''id'' = JStr (string_of_nat (rel_identity r))"
    and "js_get (network_link (fst (shape_rel rnd c r))) ''type'' = js_or (JStr (rel_type r)) (JStr ''UNKNOWN'')"
proof -
  obtain i c1 where i: "identity_string rnd ''rel-'' (rel_identity r) c = (i, c1)"
    by (cases "identity_string rnd ''rel-'' (rel_identity r) c")
  let ?fields = "[(''id'', i),
                  (''type'', js_or (JStr (rel_type r)) (JStr ''UNKNOWN'')),
                  (''startNodeId'', end_identity_string (startNodeIdentity r)),
                  (''endNodeId'', end_identity_string (endNodeIdentity r))]"
  let ?rel = "JObj (spread (spread [] (own_props (JObj (rel_properties r)))) ?fields)"
  from i have r: "fst (shape_rel rnd c r) = ?rel" by (simp add: shape_rel_def)
  have m1: "map_of (rev ?fields) ''id'' = Some i" by simp
  have m2: "map_of (rev ?fields) ''type'' = Some (js_or (JStr (rel_type r)) (JStr ''UNKNOWN''))" by simp
  have "js_get (network_link ?rel) ''id'' = i"
    unfolding network_link_def js_get_spread by (simp only: literal_after_spread [OF m1] if_True)
  moreover have "rel_identity r \<noteq> 0 \<Longrightarrow> i = JStr (string_of_nat (rel_identity r))"
    using i by (simp add: identity_string_def)
  ultimately show "rel_identity r \<noteq> 0 \<Longrightarrow>
      js_get (network_link (fst (shape_rel rnd c r))) ''id'' = JStr (string_of_nat (rel_identity r))"
    unfolding r by simp
  show "js_get (network_link (fst (shape_rel rnd c r))) ''type'' = js_or (JStr (rel_type r)) (JStr ''UNKNOWN'')"
    unfolding r network_link_def js_get_spread by (simp only: literal_after_spread [OF m2] if_True)
qed

text \<open>
  Claim C9, as the code has it. When \<^verbatim>\<open>getNetworkData(limit)\<close> returns, its nodes are
  user nodes, at most as many as the integer that reaches \<^verbatim>\<open>LIMIT\<close>, each with the
  identity of its node as \<^verbatim>\<open>id\<close>; its links are one for each relationship of a
  duplicate-free list, in that order, which holds exactly the relationships of the store
  that join a returned node to a user with a lower internal identity, and each link has
  the identity of its relationship as \<^verbatim>\<open>id\<close> and its type as \<^verbatim>\<open>type\<close>. So several
  relationships between the same two users give several links. (An identity is written as its decimal numeral when it is not 0
  and below \<open>2^53\<close>.) Nothing is said here of the \<^verbatim>\<open>source\<close> and \<^verbatim>\<open>target\<close> of a link.
\<close>

theorem network_slice:
  assumes "getNetworkData rnd c g limit = Some (Inr (out, c'))"
  shows "\<exists>lim us rs.
           network_limit limit = Some lim
         \<and> network_query g lim = Inr (us, rs)
         \<and> int (length us) \<le> lim
         \<and> set us \<subseteq> set (filter is_user (graph_nodes g))
         \<and> distinct rs
         \<and> set rs = {r \<in> set (graph_rels g). \<exists>u \<in> set us. joins_lower_user g u r}
         \<and> length (out_nodes out) = length us
         \<and> (\<forall>i < length us. plain_identity (node_identity (us ! i)) \<longrightarrow>
                node_id (out_nodes out ! i) = JStr (string_of_nat (node_identity (us ! i))))
         \<and> length (out_links out) = length rs
         \<and> (\<forall>i < length rs.
                js_get (out_links out ! i) ''type'' = js_or (JStr (rel_type (rs ! i))) (JStr ''UNKNOWN'')
              \<and> (plain_identity (rel_identity (rs ! i)) \<longrightarrow>
                   js_get (out_links out ! i) ''id'' = JStr (string_of_nat (rel_identity (rs ! i)))))"
proof -
  from assms obtain lim where lim: "network_limit limit = Some lim"
    by (auto simp: getNetworkData_def split: option.splits)
  with assms obtain us rs where q: "network_query g lim = Inr (us, rs)"
    by (auto simp: getNetworkData_def split: sum.splits)
  obtain ns c1 where n: "shape_list (shape_node rnd) c us = (ns, c1)"
    by (cases "shape_list (shape_node rnd) c us")
  obtain ls c2 where l: "shape_list (shape_rel rnd) c1 rs = (ls, c2)"
    by (cases "shape_list (shape_rel rnd) c1 rs")
  from assms lim q n l have out: "out = JObj [(''nodes'', JArr (map network_node ns)),
      (''links'', JArr (map network_link ls))]"
    by (simp add: getNetworkData_def)
  from n have ln: "length ns = length us" using shape_list_length [of "shape_node rnd" c us] by simp
  then have 1: "length (out_nodes out) = length us" by (simp add: out out_of_network)
  from l have ll: "length ls = length rs" using shape_list_length [of "shape_rel rnd" c1 rs] by simp
  then have 2: "length (out_links out) = length rs" by (simp add: out out_of_network)
  have 3: "\<forall>i < length us. plain_identity (node_identity (us ! i)) \<longrightarrow>
      node_id (out_nodes out ! i) = JStr (string_of_nat (node_identity (us ! i)))"
  proof (intro allI impI)
    fix i assume i: "i < length us" and p: "plain_identity (node_identity (us ! i))"
    from shape_list_nth [OF n i] obtain ci where "ns ! i = fst (shape_node rnd ci (us ! i))" ..
    moreover from p have "node_identity (us ! i) \<noteq> 0" by (simp add: plain_identity_def)
    ultimately have "node_id (network_node (ns ! i)) = JStr (string_of_nat (node_identity (us ! i)))"
      by (simp add: shaped_node_id)
    with i ln show "node_id (out_nodes out ! i) = JStr (string_of_nat (node_identity (us ! i)))"
      by (simp add: out out_of_network)
  qed
  have 4: "\<forall>i < length rs.
      js_get (out_links out ! i) ''type'' = js_or (JStr (rel_type (rs ! i))) (JStr ''UNKNOWN'')
      \<and> (plain_identity (rel_identity (rs ! i)) \<longrightarrow>
           js_get (out_links out ! i) ''id'' = JStr (string_of_nat (rel_identity (rs ! i))))"
  proof (intro allI impI)
    fix i assume i: "i < length rs"
    from shape_list_nth [OF l i] obtain ci where ci: "ls ! i = fst (shape_rel rnd ci (rs ! i))" ..
    from i ll have o: "out_links out ! i = network_link (ls ! i)" by (simp add: out out_of_network)
    have t: "js_get (out_links out ! i) ''type'' = js_or (JStr (rel_type (rs ! i))) (JStr ''UNKNOWN'')"
      unfolding o ci by (rule shaped_link(2))
    have d: "plain_identity (rel_identity (rs ! i)) \<longrightarrow>
        js_get (out_links out ! i) ''id'' = JStr (string_of_nat (rel_identity (rs ! i)))"
      unfolding o ci by (simp add: plain_identity_def shaped_link(1))
    from t d show "js_get (out_links out ! i) ''type'' = js_or (JStr (rel_type (rs ! i))) (JStr ''UNKNOWN'')
      \<and> (plain_identity (rel_identity (rs ! i)) \<longrightarrow>
           js_get (out_links out ! i) ''id'' = JStr (string_of_nat (rel_identity (rs ! i))))"
      by (rule conjI)
  qed
  from network_query_rows [OF q] lim q 1 2 3 4 show ?thesis by blast
qed

theorem network_slice_witness:
  "\<exists>out c' us rs.
      getNetworkData string_of_nat 0 mutual_graph (JStr ''100'') = Some (Inr (out, c'))
    \<and> network_query mutual_graph 100 = Inr (us, rs)
    \<and> map node_identity us = [1, 2] \<and> map rel_identity rs = [10, 11]
    \<and> map node_id (out_nodes out) = [JStr ''1'', JStr ''2'']
    \<and> map (\<lambda>l. (js_get l ''id'', js_get l ''type'')) (out_links out)
        = [(JStr ''10'', JStr ''KNOWS''), (JStr ''11'', JStr ''KNOWS'')]"
proof -
  let ?out = "fst (projr (the (getNetworkData string_of_nat 0 mutual_graph (JStr ''100''))))"
  have h: "getNetworkData string_of_nat 0 mutual_graph (JStr ''100'') = Some (Inr (?out, 0))"
    by code_simp
  have l: "network_limit (JStr ''100'') = Some 100" by code_simp
  have q: "network_query mutual_graph 100 =
      Inr ([user 1 ''a'', user 2 ''b''], [rel 10 ''KNOWS'' 1 2 [], rel 11 ''KNOWS'' 2 1 []])"
    by code_simp
  have i: "map node_identity [user 1 ''a'', user 2 ''b''] = [1, 2]"
    "map rel_identity [rel 10 ''KNOWS'' 1 2 [], rel 11 ''KNOWS'' 2 1 []] = [10, 11]"
    by code_simp+
  have o: "map node_id (out_nodes ?out) = [JStr ''1'', JStr ''2'']"
    "map (\<lambda>l. (js_get l ''id'', js_get l ''type'')) (out_links ?out)
        = [(JStr ''10'', JStr ''KNOWS''), (JStr ''11'', JStr ''KNOWS'')]"
    by code_simp+
  from network_slice [OF h] obtain lim us rs where
    a: "network_limit (JStr ''100'') = Some lim" and b: "network_query mutual_graph lim = Inr (us, rs)"
    by blast
  from a l have "lim = 100" by simp
  with b q have u: "us = [user 1 ''a'', user 2 ''b'']"
    and r: "rs = [rel 10 ''KNOWS'' 1 2 [], rel 11 ''KNOWS'' 2 1 []]"
    by simp_all
  have "network_query mutual_graph 100 = Inr (us, rs)" unfolding u r by (rule q)
  moreover have "map node_identity us = [1, 2]" unfolding u by (rule i(1))
  moreover have "map rel_identity rs = [10, 11]" unfolding r by (rule i(2))
  ultimately show ?thesis using h o
    by (intro exI [of _ ?out] exI [of _ 0] exI [of _ us] exI [of _ rs]) simp
qed

text \<open>
  Claim C9 as stated fails: two users who know each other, with one KNOWS relationship
  each way, are returned with two links, one for each relationship; and the \<^verbatim>\<open>source\<close>
  and \<^verbatim>\<open>target\<close> of both links are \<^verbatim>\<open>'unknown'\<close>, which is the \<^verbatim>\<open>id\<close> of no returned node.
\<close>

theorem mutual_pair_linked_twice:
  "(case getNetworkData string_of_nat 0 mutual_graph (JNum 100) of
      Some (Inr (out, c)) \<Rightarrow>
        map node_id (out_nodes out) = [JStr ''1'', JStr ''2'']
        \<and> map (\<lambda>l. (js_get l ''id'', js_get l ''source'', js_get l ''target'')) (out_links out)
            = [(JStr ''10'', JStr ''unknown'', JStr ''unknown''),
               (JStr ''11'', JStr ''unknown'', JStr ''unknown'')]
    | _ \<Rightarrow> False)"
  by code_simp

end
